theory Spec2Isabelle
  imports Main
begin

section \<open>Minimongo.Sorter: sort specifications, sort keys and comparators\<close>

text \<open>
  A shallow embedding of \<^verbatim>\<open>Minimongo.Sorter\<close> (the sorter of Meteor's minimongo
  package). Every \<^verbatim>\<open>throw\<close> of the source is a value \<open>Inl e\<close> of a result type
  \<open>error + 'a\<close>; a callback that mutates a captured variable is a function that takes
  the variable and returns its new value.

  Three collaborators of the sorter are not part of the file and are parameters of the
  model:
  \<^item> \<open>lookup path doc\<close> stands for
    \<^verbatim>\<open>expandArraysInBranches(makeLookupFunction(path)(doc), true)\<close>, the branches of a
    path in a document;
  \<^item> \<open>cmp\<close> stands for \<^verbatim>\<open>LocalCollection._f._cmp\<close>, the comparator of values;
  \<^item> \<open>ge0\<close> stands for JavaScript's coercion in \<^verbatim>\<open>value >= 0\<close> when the value is a
    string, an array or an object.
  JavaScript numbers are modelled by \<open>int\<close>: \<^verbatim>\<open>NaN\<close>, the infinities and fractions are
  outside the model.
\<close>

subsection \<open>Values, errors, results\<close>

datatype jsval =
    JUndef
  | JNull
  | JBool bool
  | JNum int
  | JStr string
  | JArr "jsval list"
  | JObj "(string \<times> jsval) list"

text \<open>
  An object is the list of its entries in enumeration order, its keys distinct. The
  errors are the
  \<^verbatim>\<open>throw\<close> sites of the source, named after the kinds of the specification
  (\<open>InvalidSpec\<close> with the message, without the JSON text of the specification;
  \<open>NoSpec\<close> and \<open>NoSoleValue\<close> for the two that the specification does not name);
  \<open>TypeError\<close> is the error of the JavaScript runtime on a property access of
  \<^verbatim>\<open>null\<close> or \<^verbatim>\<open>undefined\<close> and on a call of something that is not a function.
\<close>

datatype error =
    InvalidSpec string
  | NoSpec
  | InconsistentBranches
  | DuplicatePath string
  | ParallelArrayMismatch
  | NoSoleValue
  | MissingPath
  | KeyLengthMismatch
  | NoKeysFound
  | MissingDistance jsval
  | TypeError

type_synonym 'a comparator = "'a \<Rightarrow> 'a \<Rightarrow> error + int"

type_synonym key = "jsval list"

record spec_part =
  path :: string
  ascending :: bool

record sorter =
  sortSpecParts :: "spec_part list"

text \<open>\<^verbatim>\<open>_.each\<close> with a body that may throw: the state is threaded through the calls.\<close>

fun each :: "('s \<Rightarrow> 'a \<Rightarrow> error + 's) \<Rightarrow> 'a list \<Rightarrow> 's \<Rightarrow> error + 's" where
  "each f [] s = Inr s"
| "each f (x # xs) s = (case f s x of Inl e \<Rightarrow> Inl e | Inr s' \<Rightarrow> each f xs s')"

text \<open>\<^verbatim>\<open>_.map\<close> with a body that may throw.\<close>

fun map_err :: "('a \<Rightarrow> error + 'b) \<Rightarrow> 'a list \<Rightarrow> error + 'b list" where
  "map_err f [] = Inr []"
| "map_err f (x # xs) =
     (case f x of Inl e \<Rightarrow> Inl e
      | Inr y \<Rightarrow> (case map_err f xs of Inl e \<Rightarrow> Inl e | Inr ys \<Rightarrow> Inr (y # ys)))"

subsection \<open>JavaScript primitives used by the sorter\<close>

text \<open>\<^verbatim>\<open>!v\<close> is false on the truthy values.\<close>

fun truthy :: "jsval \<Rightarrow> bool" where
  "truthy JUndef = False"
| "truthy JNull = False"
| "truthy (JBool b) = b"
| "truthy (JNum n) = (n \<noteq> 0)"
| "truthy (JStr s) = (s \<noteq> [])"
| "truthy (JArr xs) = True"
| "truthy (JObj kvs) = True"

text \<open>
  \<^verbatim>\<open>v[i]\<close> for a literal index: an array element or \<^verbatim>\<open>undefined\<close> beyond its end, the
  property named by the index in an object, \<^verbatim>\<open>undefined\<close> on a number or boolean, a
  \<open>TypeError\<close> on \<^verbatim>\<open>null\<close> and \<^verbatim>\<open>undefined\<close>. The sorter indexes no string.
\<close>

definition digit :: "nat \<Rightarrow> char" where
  "digit n = ''0123456789'' ! (n mod 10)"

function string_of_nat :: "nat \<Rightarrow> string" where
  "string_of_nat n =
     (if n < 10 then [digit n] else string_of_nat (n div 10) @ [digit n])"
  by pat_completeness auto
termination
  by (relation "measure id") auto

declare string_of_nat.simps [simp del]

fun index :: "jsval \<Rightarrow> nat \<Rightarrow> error + jsval" where
  "index JUndef i = Inl TypeError"
| "index JNull i = Inl TypeError"
| "index (JArr xs) i = Inr (if i < length xs then xs ! i else JUndef)"
| "index (JObj kvs) i =
     Inr (case map_of kvs (string_of_nat i) of None \<Rightarrow> JUndef | Some v \<Rightarrow> v)"
| "index v i = Inr JUndef"

text \<open>\<^verbatim>\<open>v.name\<close>.\<close>

fun property :: "jsval \<Rightarrow> string \<Rightarrow> error + jsval" where
  "property JUndef name = Inl TypeError"
| "property JNull name = Inl TypeError"
| "property (JObj kvs) name =
     Inr (case map_of kvs name of None \<Rightarrow> JUndef | Some v \<Rightarrow> v)"
| "property v name = Inr JUndef"

text \<open>
  \<^verbatim>\<open>value >= 0\<close>: a number is compared as it is, \<^verbatim>\<open>null\<close>, \<^verbatim>\<open>true\<close> and
  \<^verbatim>\<open>false\<close> become 0, 1 and 0, \<^verbatim>\<open>undefined\<close> becomes \<^verbatim>\<open>NaN\<close>, which is not
  \<open>\<ge> 0\<close>. Strings, arrays and objects are coerced by the runtime (\<open>ge0\<close>).
\<close>

fun ge_zero :: "(jsval \<Rightarrow> bool) \<Rightarrow> jsval \<Rightarrow> bool" where
  "ge_zero ge0 (JNum n) = (0 \<le> n)"
| "ge_zero ge0 JNull = True"
| "ge_zero ge0 (JBool b) = True"
| "ge_zero ge0 JUndef = False"
| "ge_zero ge0 v = ge0 v"

subsection \<open>The constructor\<close>

text \<open>
  \<^verbatim>\<open>addSpecPart\<close> pushes onto \<^verbatim>\<open>self._sortSpecParts\<close>; here it takes the parts and
  returns them extended. \<^verbatim>\<open>path.charAt\<close> is a function only when the path is a string;
  \<^verbatim>\<open>path.charAt(0)\<close> is the string of its first character.
\<close>

definition addSpecPart :: "spec_part list \<Rightarrow> jsval \<Rightarrow> bool \<Rightarrow> error + spec_part list" where
  "addSpecPart parts p asc =
     (if \<not> truthy p then Inl (InvalidSpec ''sort keys must be non-empty'')
      else case p of
        JStr s \<Rightarrow>
          if take 1 s = ''$'' then Inl (InvalidSpec (''unsupported sort key: '' @ s))
          else Inr (parts @ [\<lparr>path = s, ascending = asc\<rparr>])
      | _ \<Rightarrow> Inl TypeError)"

text \<open>The body of the loop over an array specification.\<close>

definition array_step :: "spec_part list \<Rightarrow> jsval \<Rightarrow> error + spec_part list" where
  "array_step parts x =
     (case x of
        JStr s \<Rightarrow> addSpecPart parts (JStr s) True
      | _ \<Rightarrow>
        (case index x 0 of Inl e \<Rightarrow> Inl e
         | Inr p \<Rightarrow>
           (case index x 1 of Inl e \<Rightarrow> Inl e
            | Inr d \<Rightarrow> addSpecPart parts p (d \<noteq> JStr ''desc''))))"

text \<open>The body of \<^verbatim>\<open>_.each(spec, function (value, key) ...)\<close>.\<close>

definition object_step ::
  "(jsval \<Rightarrow> bool) \<Rightarrow> spec_part list \<Rightarrow> string \<times> jsval \<Rightarrow> error + spec_part list" where
  "object_step ge0 parts kv = addSpecPart parts (JStr (fst kv)) (ge_zero ge0 (snd kv))"

text \<open>
  \<^verbatim>\<open>typeof null\<close> is \<^verbatim>\<open>"object"\<close>, and \<^verbatim>\<open>_.each\<close> iterates nothing on
  \<^verbatim>\<open>null\<close>. The key comparator that the constructor stores is \<open>keyComparator\<close>
  below, a function of the parts; the selector for \<^verbatim>\<open>affectedByModifier\<close>, built on
  the server only, is not modelled.
\<close>

definition Sorter :: "(jsval \<Rightarrow> bool) \<Rightarrow> jsval \<Rightarrow> error + sorter" where
  "Sorter ge0 spec =
     (case
        (case spec of
           JArr xs \<Rightarrow> each array_step xs []
         | JObj kvs \<Rightarrow> each (object_step ge0) kvs []
         | JNull \<Rightarrow> Inr []
         | _ \<Rightarrow> Inl (InvalidSpec ''Bad sort specification''))
      of Inl e \<Rightarrow> Inl e
       | Inr parts \<Rightarrow> Inr \<lparr>sortSpecParts = parts\<rparr>)"

subsection \<open>Composition of comparators\<close>

text \<open>The loop of \<^verbatim>\<open>composeComparators\<close>: the first result that is not zero, or zero.\<close>

fun composeComparators :: "'a comparator list \<Rightarrow> 'a comparator" where
  "composeComparators [] a b = Inr 0"
| "composeComparators (c # cs) a b =
     (case c a b of Inl e \<Rightarrow> Inl e
      | Inr compare \<Rightarrow> if compare \<noteq> 0 then Inr compare else composeComparators cs a b)"

subsection \<open>Comparing keys\<close>

text \<open>\<^verbatim>\<open>key[i]\<close> is \<^verbatim>\<open>undefined\<close> beyond the end of the key.\<close>

definition key_at :: "key \<Rightarrow> nat \<Rightarrow> jsval" where
  "key_at k i = (if i < length k then k ! i else JUndef)"

text \<open>
  \<^verbatim>\<open>_keyFieldComparator(i)\<close>. The source reads \<^verbatim>\<open>self._sortSpecParts[i].ascending\<close>
  when it builds the comparator, a \<open>TypeError\<close> when there is no part \<open>i\<close>; the
  constructor builds one comparator for each part.
\<close>

definition keyFieldComparator ::
  "(jsval \<Rightarrow> jsval \<Rightarrow> int) \<Rightarrow> sorter \<Rightarrow> nat \<Rightarrow> key comparator" where
  "keyFieldComparator cmp self i =
     (\<lambda>key1 key2.
        if i < length (sortSpecParts self) then
          (let invert = \<not> ascending (sortSpecParts self ! i);
               compare = cmp (key_at key1 i) (key_at key2 i)
           in Inr (if invert then - compare else compare))
        else Inl TypeError)"

text \<open>\<^verbatim>\<open>self._keyComparator\<close>, as the constructor builds it.\<close>

definition keyComparator :: "(jsval \<Rightarrow> jsval \<Rightarrow> int) \<Rightarrow> sorter \<Rightarrow> key comparator" where
  "keyComparator cmp self =
     composeComparators
       (map (keyFieldComparator cmp self) [0 ..< length (sortSpecParts self)])"

definition compareKeys :: "(jsval \<Rightarrow> jsval \<Rightarrow> int) \<Rightarrow> sorter \<Rightarrow> key comparator" where
  "compareKeys cmp self key1 key2 =
     (if length key1 \<noteq> length (sortSpecParts self) \<or>
         length key2 \<noteq> length (sortSpecParts self)
      then Inl KeyLengthMismatch
      else keyComparator cmp self key1 key2)"

subsection \<open>Branches and path keys\<close>

text \<open>
  A branch is \<^verbatim>\<open>{value: ..., arrayIndices: [...]}\<close>, its \<^verbatim>\<open>arrayIndices\<close> absent
  when no array was traversed. An array index is a number or a string (the lookup
  marks an explicit numeric path component with \<^verbatim>\<open>'x'\<close>).
\<close>

datatype array_index = Index nat | Marker string

record branch =
  branch_value :: jsval
  arrayIndices :: "array_index list option"

type_synonym lookup = "string \<Rightarrow> jsval \<Rightarrow> branch list"

fun index_string :: "array_index \<Rightarrow> string" where
  "index_string (Index n) = string_of_nat n"
| "index_string (Marker s) = s"

text \<open>\<^verbatim>\<open>Array.prototype.join\<close> on strings.\<close>

fun join :: "string \<Rightarrow> string list \<Rightarrow> string" where
  "join sep [] = []"
| "join sep [x] = x"
| "join sep (x # y # ys) = x @ sep @ join sep (y # ys)"

definition pathFromIndices :: "array_index list \<Rightarrow> string" where
  "pathFromIndices indices = join '','' (map index_string indices) @ '',''"

subsection \<open>Objects used as dictionaries\<close>

text \<open>
  \<^verbatim>\<open>valuesByIndexAndPath[whichField]\<close> and \<^verbatim>\<open>knownPaths\<close> are objects whose keys
  are the empty string or path keys; JavaScript enumerates such keys in insertion
  order. They are association lists: \<open>has\<close> is \<^verbatim>\<open>_.has\<close>, \<open>put\<close> is the assignment
  \<^verbatim>\<open>obj[k] = v\<close> (an existing key keeps its place), \<open>get\<close> is \<^verbatim>\<open>obj[k]\<close>.
\<close>

definition has :: "(string \<times> 'v) list \<Rightarrow> string \<Rightarrow> bool" where
  "has obj k = (map_of obj k \<noteq> None)"

fun put :: "(string \<times> 'v) list \<Rightarrow> string \<Rightarrow> 'v \<Rightarrow> (string \<times> 'v) list" where
  "put [] k v = [(k, v)]"
| "put (kv # kvs) k v = (if fst kv = k then (k, v) # kvs else kv # put kvs k v)"

definition get :: "(string \<times> jsval) list \<Rightarrow> string \<Rightarrow> jsval" where
  "get obj k = (case map_of obj k of None \<Rightarrow> JUndef | Some v \<Rightarrow> v)"

subsection \<open>Generating the keys of a document\<close>

text \<open>
  The body of \<^verbatim>\<open>_.each(branches, ...)\<close>: its state is the object
  \<^verbatim>\<open>valuesByIndexAndPath[whichField]\<close> and the flag \<^verbatim>\<open>usedPaths\<close>; \<open>n\<close> is
  \<^verbatim>\<open>branches.length\<close>. An array of indices is truthy also when it is empty. The
  source stores the value before it looks the path up in \<^verbatim>\<open>knownPaths\<close>; a throw
  discards the state, so the model decides first and stores then.
\<close>

definition branch_step ::
  "(string \<times> bool) list option \<Rightarrow> nat \<Rightarrow> (string \<times> jsval) list \<times> bool \<Rightarrow> branch
     \<Rightarrow> error + (string \<times> jsval) list \<times> bool" where
  "branch_step knownPaths n st b =
     (case arrayIndices b of
        None \<Rightarrow>
          if n > 1 then Inl InconsistentBranches
          else Inr (put (fst st) [] (branch_value b), snd st)
      | Some indices \<Rightarrow>
          (let p = pathFromIndices indices in
           if has (fst st) p then Inl (DuplicatePath p)
           else
             (case knownPaths of
                Some known \<Rightarrow>
                  if \<not> has known p then Inl ParallelArrayMismatch
                  else Inr (put (fst st) p (branch_value b), True)
              | None \<Rightarrow> Inr (put (fst st) p (branch_value b), True))))"

text \<open>
  The body of \<^verbatim>\<open>_.each(self._sortSpecParts, ...)\<close>: its state is
  \<^verbatim>\<open>valuesByIndexAndPath\<close> and \<^verbatim>\<open>knownPaths\<close> (\<open>None\<close> is \<^verbatim>\<open>null\<close>).
\<close>

definition field_step ::
  "lookup \<Rightarrow> jsval \<Rightarrow> (string \<times> jsval) list list \<times> (string \<times> bool) list option
     \<Rightarrow> spec_part
     \<Rightarrow> error + (string \<times> jsval) list list \<times> (string \<times> bool) list option" where
  "field_step lookup doc st spec =
     (let found = lookup (path spec) doc;
          branches =
            (if length found = 0 then [\<lparr>branch_value = JNull, arrayIndices = None\<rparr>]
             else found)
      in case each (branch_step (snd st) (length branches)) branches ([], False) of
           Inl e \<Rightarrow> Inl e
         | Inr (values, usedPaths) \<Rightarrow>
             (case snd st of
                Some known \<Rightarrow>
                  if \<not> has values [] \<and> length known \<noteq> length values
                  then Inl ParallelArrayMismatch
                  else Inr (fst st @ [values], Some known)
              | None \<Rightarrow>
                  if usedPaths
                  then Inr (fst st @ [values], Some (map (\<lambda>kv. (fst kv, True)) values))
                  else Inr (fst st @ [values], None)))"

text \<open>The two bodies of \<^verbatim>\<open>_.map(valuesByIndexAndPath, ...)\<close>.\<close>

definition sole_value :: "(string \<times> jsval) list \<Rightarrow> error + jsval" where
  "sole_value values = (if \<not> has values [] then Inl NoSoleValue else Inr (get values []))"

definition path_value :: "string \<Rightarrow> (string \<times> jsval) list \<Rightarrow> error + jsval" where
  "path_value p values =
     (if has values [] then Inr (get values [])
      else if \<not> has values p then Inl MissingPath
      else Inr (get values p))"

text \<open>
  \<^verbatim>\<open>_generateKeysFromDoc(doc, cb)\<close>: the callback takes a key and the state it
  mutates, and may throw.
\<close>

definition generateKeysFromDoc ::
  "lookup \<Rightarrow> sorter \<Rightarrow> jsval \<Rightarrow> (key \<Rightarrow> 's \<Rightarrow> error + 's) \<Rightarrow> 's \<Rightarrow> error + 's" where
  "generateKeysFromDoc lookup self doc cb s =
     (if length (sortSpecParts self) = 0 then Inl NoSpec
      else
        case each (field_step lookup doc) (sortSpecParts self) ([], None) of
          Inl e \<Rightarrow> Inl e
        | Inr (valuesByIndexAndPath, knownPaths) \<Rightarrow>
            (case knownPaths of
               None \<Rightarrow>
                 (case map_err sole_value valuesByIndexAndPath of
                    Inl e \<Rightarrow> Inl e
                  | Inr soleKey \<Rightarrow> cb soleKey s)
             | Some known \<Rightarrow>
                 each (\<lambda>s' kv.
                         case map_err (path_value (fst kv)) valuesByIndexAndPath of
                           Inl e \<Rightarrow> Inl e
                         | Inr k \<Rightarrow> cb k s')
                      known s))"

text \<open>The candidate keys of a document, in the order of the calls of the callback.\<close>

definition keysFromDoc :: "lookup \<Rightarrow> sorter \<Rightarrow> jsval \<Rightarrow> error + key list" where
  "keysFromDoc lookup self doc =
     generateKeysFromDoc lookup self doc (\<lambda>k ks. Inr (ks @ [k])) []"

subsection \<open>The minimum key and the comparators of documents\<close>

text \<open>The callback of \<^verbatim>\<open>_getMinKeyFromDoc\<close>; its state is \<^verbatim>\<open>minKey\<close>.\<close>

definition minKeyStep ::
  "(jsval \<Rightarrow> jsval \<Rightarrow> int) \<Rightarrow> sorter \<Rightarrow> key \<Rightarrow> key option \<Rightarrow> error + key option" where
  "minKeyStep cmp self k minKey =
     (case minKey of
        None \<Rightarrow> Inr (Some k)
      | Some m \<Rightarrow>
          (case compareKeys cmp self k m of
             Inl e \<Rightarrow> Inl e
           | Inr c \<Rightarrow> if c < 0 then Inr (Some k) else Inr (Some m)))"

definition getMinKeyFromDoc ::
  "lookup \<Rightarrow> (jsval \<Rightarrow> jsval \<Rightarrow> int) \<Rightarrow> sorter \<Rightarrow> jsval \<Rightarrow> error + key" where
  "getMinKeyFromDoc lookup cmp self doc =
     (case generateKeysFromDoc lookup self doc (minKeyStep cmp self) None of
        Inl e \<Rightarrow> Inl e
      | Inr None \<Rightarrow> Inl NoKeysFound
      | Inr (Some minKey) \<Rightarrow> Inr minKey)"

definition getBaseComparator ::
  "lookup \<Rightarrow> (jsval \<Rightarrow> jsval \<Rightarrow> int) \<Rightarrow> sorter \<Rightarrow> jsval comparator" where
  "getBaseComparator lookup cmp self =
     (if length (sortSpecParts self) = 0 then (\<lambda>doc1 doc2. Inr 0)
      else
        (\<lambda>doc1 doc2.
           case getMinKeyFromDoc lookup cmp self doc1 of
             Inl e \<Rightarrow> Inl e
           | Inr key1 \<Rightarrow>
               (case getMinKeyFromDoc lookup cmp self doc2 of
                  Inl e \<Rightarrow> Inl e
                | Inr key2 \<Rightarrow> compareKeys cmp self key1 key2)))"

text \<open>
  The tie-breaker of \<^verbatim>\<open>getComparator\<close>. \<open>distances\<close> is the map from identifiers to
  distances: \<^verbatim>\<open>distances.has(id)\<close> is \<open>distances id \<noteq> None\<close>.
\<close>

definition distanceComparator :: "(jsval \<Rightarrow> int option) \<Rightarrow> jsval comparator" where
  "distanceComparator distances a b =
     (case property a ''_id'' of
        Inl e \<Rightarrow> Inl e
      | Inr ida \<Rightarrow>
          (case distances ida of
             None \<Rightarrow> Inl (MissingDistance ida)
           | Some da \<Rightarrow>
               (case property b ''_id'' of
                  Inl e \<Rightarrow> Inl e
                | Inr idb \<Rightarrow>
                    (case distances idb of
                       None \<Rightarrow> Inl (MissingDistance idb)
                     | Some db \<Rightarrow> Inr (da - db)))))"

text \<open>
  \<^verbatim>\<open>getComparator(options)\<close>: \<open>None\<close> stands for options that are absent or have no
  \<^verbatim>\<open>distances\<close>.
\<close>

definition getComparator ::
  "lookup \<Rightarrow> (jsval \<Rightarrow> jsval \<Rightarrow> int) \<Rightarrow> sorter \<Rightarrow> (jsval \<Rightarrow> int option) option
     \<Rightarrow> jsval comparator" where
  "getComparator lookup cmp self options =
     (case options of
        None \<Rightarrow> getBaseComparator lookup cmp self
      | Some distances \<Rightarrow>
          composeComparators
            [getBaseComparator lookup cmp self, distanceComparator distances])"

subsection \<open>The collaborators, for the examples\<close>

text \<open>
  The sorter is verified for every lookup and every comparator of values. The examples
  need one of each: these follow the contracts that the specification gives for the
  Path Lookup and the Value Comparator.
\<close>

text \<open>
  Modelled from the spec: the split of a dotted field path into its components (the
  Path Lookup, \<^verbatim>\<open>makeLookupFunction\<close>, is not part of the file).
\<close>

fun split_path :: "string \<Rightarrow> string \<Rightarrow> string list" where
  "split_path acc [] = [acc]"
| "split_path acc (c # cs) =
     (if c = CHR ''.'' then acc # split_path [] cs else split_path (acc @ [c]) cs)"

text \<open>
  Modelled from the spec: the expansion of a terminal array
  (\<^verbatim>\<open>expandArraysInBranches\<close> is not part of the file). Its elements become separate
  branches, never the array itself, each with the index chosen.
\<close>

fun leaf_elems :: "array_index list \<Rightarrow> nat \<Rightarrow> jsval list \<Rightarrow> branch list" where
  "leaf_elems ixs i [] = []"
| "leaf_elems ixs i (x # xs) =
     \<lparr>branch_value = x, arrayIndices = Some (ixs @ [Index i])\<rparr> # leaf_elems ixs (Suc i) xs"

text \<open>
  Modelled from the spec: the Path Lookup (\<^verbatim>\<open>makeLookupFunction\<close> is not part of
  the file). The components of a path are resolved against a document; every array met
  on the way is replaced by its elements, and a branch carries the sequence of indices
  chosen, or none when its path traverses no array. A path with no value in the
  document has no branch.
\<close>

fun lookup_parts :: "string list \<Rightarrow> array_index list \<Rightarrow> jsval \<Rightarrow> branch list"
and lookup_elems :: "string list \<Rightarrow> array_index list \<Rightarrow> nat \<Rightarrow> jsval list \<Rightarrow> branch list"
where
  "lookup_parts [] ixs v =
     (case v of
        JArr xs \<Rightarrow> leaf_elems ixs 0 xs
      | _ \<Rightarrow> [\<lparr>branch_value = v, arrayIndices = (if ixs = [] then None else Some ixs)\<rparr>])"
| "lookup_parts (p # ps) ixs v =
     (case v of
        JObj kvs \<Rightarrow> (case map_of kvs p of None \<Rightarrow> [] | Some w \<Rightarrow> lookup_parts ps ixs w)
      | JArr xs \<Rightarrow> lookup_elems (p # ps) ixs 0 xs
      | _ \<Rightarrow> [])"
| "lookup_elems ps ixs i [] = []"
| "lookup_elems ps ixs i (x # xs) =
     lookup_parts ps (ixs @ [Index i]) x @ lookup_elems ps ixs (Suc i) xs"

text \<open>
  Modelled from the spec: \<^verbatim>\<open>lookup(document, path)\<close> of the Path Lookup, with the
  arrays that are leaves expanded (\<^verbatim>\<open>makeLookupFunction\<close> and
  \<^verbatim>\<open>expandArraysInBranches\<close> are not part of the file).
\<close>

definition path_lookup :: lookup where
  "path_lookup p doc = lookup_parts (split_path [] p) [] doc"

text \<open>
  Modelled from the spec: the order of the types of values in the Value Comparator
  (\<^verbatim>\<open>LocalCollection._f._cmp\<close> is not part of the file), that of the reference
  database: \<^verbatim>\<open>null\<close>, numbers, strings, objects, arrays, booleans, with
  \<^verbatim>\<open>undefined\<close> before them all.
\<close>

fun type_order :: "jsval \<Rightarrow> int" where
  "type_order JUndef = - 1"
| "type_order JNull = 0"
| "type_order (JNum n) = 1"
| "type_order (JStr s) = 2"
| "type_order (JObj kvs) = 3"
| "type_order (JArr xs) = 4"
| "type_order (JBool b) = 7"

text \<open>
  Modelled from the spec: the rank of a value among the values of its type in the Value
  Comparator (\<^verbatim>\<open>LocalCollection._f._cmp\<close> is not part of the file), for numbers and
  booleans. The contents of strings, arrays and objects play no part in the examples
  and are not ranked.
\<close>

fun scalar :: "jsval \<Rightarrow> int" where
  "scalar (JNum n) = n"
| "scalar (JBool b) = (if b then 1 else 0)"
| "scalar v = 0"

text \<open>
  Modelled from the spec: the Value Comparator (\<^verbatim>\<open>LocalCollection._f._cmp\<close> is not
  part of the file), a total ordering of values of all types: values of different
  types are ordered by their type, numbers by their difference, \<^verbatim>\<open>false\<close> before
  \<^verbatim>\<open>true\<close>, and \<^verbatim>\<open>null\<close> equals \<^verbatim>\<open>null\<close>.
\<close>

definition value_cmp :: "jsval \<Rightarrow> jsval \<Rightarrow> int" where
  "value_cmp a b =
     (if type_order a \<noteq> type_order b then (if type_order a < type_order b then - 1 else 1)
      else scalar a - scalar b)"

subsection \<open>Notions of the specification and example inputs\<close>

text \<open>
  The composition law in the words of the specification: the first result that is not
  zero, in order, or zero.
\<close>

fun first_nonzero :: "int list \<Rightarrow> int" where
  "first_nonzero [] = 0"
| "first_nonzero (x # xs) = (if x \<noteq> 0 then x else first_nonzero xs)"

text \<open>
  Field comparison \<open>i\<close> in the words of the specification: the Value Comparator on
  \<^verbatim>\<open>key1[i]\<close> and \<^verbatim>\<open>key2[i]\<close>, negated if part \<open>i\<close> is descending.
\<close>

definition field_result ::
  "(jsval \<Rightarrow> jsval \<Rightarrow> int) \<Rightarrow> sorter \<Rightarrow> key \<Rightarrow> key \<Rightarrow> nat \<Rightarrow> int" where
  "field_result cmp self key1 key2 i =
     (if ascending (sortSpecParts self ! i) then cmp (key1 ! i) (key2 ! i)
      else - cmp (key1 ! i) (key2 ! i))"

text \<open>A path that the constructor rejects: empty, or beginning with the operator marker.\<close>

definition invalid_path :: "string \<Rightarrow> bool" where
  "invalid_path p = (p = [] \<or> take 1 p = ''$'')"

text \<open>
  The path of an element of a sequence specification that is a bare path string or an
  array beginning with a path string.
\<close>

fun element_path :: "jsval \<Rightarrow> string option" where
  "element_path (JStr s) = Some s"
| "element_path (JArr (JStr s # rest)) = Some s"
| "element_path v = None"

text \<open>
  The direction of an element of a sequence specification in the words of the
  specification: a pair whose direction is the literal \<^verbatim>\<open>"desc"\<close> is descending,
  anything else is ascending.
\<close>

fun element_ascending :: "jsval \<Rightarrow> bool" where
  "element_ascending (JArr (p # d # rest)) = (d \<noteq> JStr ''desc'')"
| "element_ascending v = True"

text \<open>A runtime in which no string, array or object is \<open>\<ge> 0\<close>.\<close>

definition no_coercion :: "jsval \<Rightarrow> bool" where
  "no_coercion v = False"

text \<open>Two documents and two distance maps.\<close>

definition doc_x :: jsval where
  "doc_x = JObj [(''_id'', JStr ''x''), (''a'', JNum 3)]"

definition doc_y :: jsval where
  "doc_y = JObj [(''_id'', JStr ''y''), (''a'', JNum 5)]"

definition example_distances :: "jsval \<Rightarrow> int option" where
  "example_distances v =
     (if v = JStr ''x'' then Some 1 else if v = JStr ''y'' then Some 2 else None)"

definition no_distances :: "jsval \<Rightarrow> int option" where
  "no_distances v = None"

text \<open>
  The key under which the loop over the branches stores the value of a branch: the
  empty string, or the path key of its array indices.
\<close>

definition branch_key :: "branch \<Rightarrow> string" where
  "branch_key b =
     (case arrayIndices b of None \<Rightarrow> [] | Some indices \<Rightarrow> pathFromIndices indices)"

text \<open>The branches that the loop of a part runs over, with the fallback.\<close>

definition found_branches :: "lookup \<Rightarrow> jsval \<Rightarrow> spec_part \<Rightarrow> branch list" where
  "found_branches lookup doc spec =
     (if length (lookup (path spec) doc) = 0
      then [\<lparr>branch_value = JNull, arrayIndices = None\<rparr>]
      else lookup (path spec) doc)"

text \<open>A lookup that finds the value \<^verbatim>\<open>null\<close>, reached through no array, everywhere.\<close>

definition null_lookup :: lookup where
  "null_lookup p doc = [\<lparr>branch_value = JNull, arrayIndices = None\<rparr>]"

text \<open>
  The invariant of the loop over the parts: while no path keys are known every part has
  an unindexed value; once they are known they are distinct and not empty, and every
  part has an unindexed value or values at exactly the known path keys.
\<close>

definition keys_inv ::
  "(string \<times> jsval) list list \<times> (string \<times> bool) list option \<Rightarrow> bool" where
  "keys_inv st =
     (case snd st of
        None \<Rightarrow> (\<forall>v\<in>set (fst st). has v [])
      | Some known \<Rightarrow>
          known \<noteq> [] \<and> distinct (map fst known) \<and>
          (\<forall>v\<in>set (fst st). has v [] \<or> fst ` set v = fst ` set known))"

text \<open>
  The keys that \<^verbatim>\<open>_generateKeysFromDoc\<close> passes to its callback once the loop over
  the parts has ended: the sole key, or one key for each known path key, each part
  giving its unindexed value if it has one and its value at the path key otherwise.
\<close>

definition key_for :: "(string \<times> jsval) list list \<Rightarrow> string \<Rightarrow> key" where
  "key_for vs p = map (\<lambda>v. if has v [] then get v [] else get v p) vs"

definition doc_keys ::
  "(string \<times> jsval) list list \<Rightarrow> (string \<times> bool) list option \<Rightarrow> key list" where
  "doc_keys vs knownPaths =
     (case knownPaths of
        None \<Rightarrow> [key_for vs []]
      | Some known \<Rightarrow> map (\<lambda>kv. key_for vs (fst kv)) known)"

text \<open>
  The contract of the Value Comparator, a total ordering: the sign of a comparison
  flips with its arguments, and \<open>\<le> 0\<close> is transitive.
\<close>

definition total_preorder :: "('a \<Rightarrow> 'a \<Rightarrow> int) \<Rightarrow> bool" where
  "total_preorder c =
     ((\<forall>a b. (c a b < 0) = (0 < c b a)) \<and>
      (\<forall>a b d. c a b \<le> 0 \<and> c b d \<le> 0 \<longrightarrow> c a d \<le> 0))"

text \<open>
  The order of keys in the words of the specification: the composition, over all the
  parts in their order, of the field comparisons, each negated when its part is
  descending.
\<close>

definition key_order :: "(jsval \<Rightarrow> jsval \<Rightarrow> int) \<Rightarrow> sorter \<Rightarrow> key \<Rightarrow> key \<Rightarrow> int" where
  "key_order cmp self key1 key2 =
     first_nonzero (map (field_result cmp self key1 key2) [0 ..< length (sortSpecParts self)])"

text \<open>
  The document \<^verbatim>\<open>{a: [{x: 0, y: 5}, {x: 1, y: 3}]}\<close> and the sorter of
  \<^verbatim>\<open>{'a.x': 1, 'a.y': 1}\<close>.
\<close>

definition doc_multikey :: jsval where
  "doc_multikey =
     JObj [(''a'', JArr [JObj [(''x'', JNum 0), (''y'', JNum 5)],
                         JObj [(''x'', JNum 1), (''y'', JNum 3)]])]"

definition sorter_xy :: sorter where
  "sorter_xy = \<lparr>sortSpecParts = [\<lparr>path = ''a.x'', ascending = True\<rparr>,
                                  \<lparr>path = ''a.y'', ascending = True\<rparr>]\<rparr>"

text \<open>
  The document \<^verbatim>\<open>{a: [{x: 0, y: 5}, {x: 0, y: 3}]}\<close>, whose candidate keys tie on
  the first part, and the sorter of \<^verbatim>\<open>{'a.x': 1, 'a.y': -1}\<close>.
\<close>

definition doc_tie :: jsval where
  "doc_tie =
     JObj [(''a'', JArr [JObj [(''x'', JNum 0), (''y'', JNum 5)],
                         JObj [(''x'', JNum 0), (''y'', JNum 3)]])]"

definition sorter_xy_desc :: sorter where
  "sorter_xy_desc = \<lparr>sortSpecParts = [\<lparr>path = ''a.x'', ascending = True\<rparr>,
                                       \<lparr>path = ''a.y'', ascending = False\<rparr>]\<rparr>"



text \<open>Two documents without a field \<^verbatim>\<open>a\<close>, and the sorter of \<^verbatim>\<open>{a: 1}\<close>.\<close>

definition doc_empty :: jsval where
  "doc_empty = JObj []"

definition doc_b :: jsval where
  "doc_b = JObj [(''b'', JNum 1)]"

definition sorter_a :: sorter where
  "sorter_a = \<lparr>sortSpecParts = [\<lparr>path = ''a'', ascending = True\<rparr>]\<rparr>"

section \<open>Properties\<close>

subsection \<open>The key comparator\<close>

lemma compose_fields:
  assumes "\<forall>i\<in>set js. i < length (sortSpecParts self)"
    and "length key1 = length (sortSpecParts self)"
    and "length key2 = length (sortSpecParts self)"
  shows "composeComparators (map (keyFieldComparator cmp self) js) key1 key2 =
         Inr (first_nonzero (map (field_result cmp self key1 key2) js))"
  using assms
  by (induction js) (auto simp: keyFieldComparator_def field_result_def key_at_def Let_def)

lemma compareKeys_eq:
  assumes "length key1 = length (sortSpecParts self)"
    and "length key2 = length (sortSpecParts self)"
  shows "compareKeys cmp self key1 key2 =
         Inr (first_nonzero
               (map (field_result cmp self key1 key2) [0 ..< length (sortSpecParts self)]))"
  using assms by (simp add: compareKeys_def keyComparator_def compose_fields)

text \<open>
  C2: on two keys whose lengths are the number of parts, the key comparator returns the
  first result that is not zero, in the order of the parts, among the results of the
  Value Comparator on \<^verbatim>\<open>key1[i]\<close> and \<^verbatim>\<open>key2[i]\<close>, each negated when part \<open>i\<close>
  is descending, and zero if there is none; if the length of either key differs from
  the number of parts it fails with \<open>KeyLengthMismatch\<close>.
\<close>

theorem compareKeys_first_nonzero:
  "(length key1 = length (sortSpecParts self) \<and> length key2 = length (sortSpecParts self) \<longrightarrow>
      compareKeys cmp self key1 key2 =
        Inr (first_nonzero
              (map (field_result cmp self key1 key2) [0 ..< length (sortSpecParts self)])))
   \<and> (length key1 \<noteq> length (sortSpecParts self) \<or> length key2 \<noteq> length (sortSpecParts self) \<longrightarrow>
      compareKeys cmp self key1 key2 = Inl KeyLengthMismatch)"
  using compareKeys_eq by (auto simp: compareKeys_def)

theorem compareKeys_first_nonzero_witness:
  "compareKeys value_cmp
     \<lparr>sortSpecParts = [\<lparr>path = ''a'', ascending = True\<rparr>, \<lparr>path = ''b'', ascending = False\<rparr>]\<rparr>
     [JNum 1, JNum 2] [JNum 1, JNum 5] = Inr 3
   \<and> compareKeys value_cmp
     \<lparr>sortSpecParts = [\<lparr>path = ''a'', ascending = True\<rparr>, \<lparr>path = ''b'', ascending = False\<rparr>]\<rparr>
     [JNum 1] [JNum 1, JNum 5] = Inl KeyLengthMismatch"
  using compareKeys_first_nonzero [of "[JNum 1, JNum 2]"
      "\<lparr>sortSpecParts = [\<lparr>path = ''a'', ascending = True\<rparr>, \<lparr>path = ''b'', ascending = False\<rparr>]\<rparr>"
      "[JNum 1, JNum 5]" value_cmp]
    compareKeys_first_nonzero [of "[JNum 1]"
      "\<lparr>sortSpecParts = [\<lparr>path = ''a'', ascending = True\<rparr>, \<lparr>path = ''b'', ascending = False\<rparr>]\<rparr>"
      "[JNum 1, JNum 5]" value_cmp]
  by (simp add: field_result_def value_cmp_def upt_rec)

subsection \<open>The comparators of documents\<close>

text \<open>
  C8: if the sorter has no parts, the base comparator of documents returns zero for
  every pair of documents, whatever the lookup yields: no key is extracted.
\<close>

theorem no_parts_all_equal:
  "sortSpecParts self = [] \<Longrightarrow> getBaseComparator lookup cmp self doc1 doc2 = Inr 0"
  by (simp add: getBaseComparator_def)

theorem no_parts_all_equal_witness:
  "sortSpecParts \<lparr>sortSpecParts = []\<rparr> = []
   \<and> getBaseComparator path_lookup value_cmp \<lparr>sortSpecParts = []\<rparr> doc_x doc_y = Inr 0"
  using no_parts_all_equal [of "\<lparr>sortSpecParts = []\<rparr>" path_lookup value_cmp doc_x doc_y]
  by simp

text \<open>
  C10: constructing a sorter from \<^verbatim>\<open>null\<close> does not fail; the sorter has no parts,
  and its comparator without distances returns zero for every pair of documents.
\<close>

theorem null_spec_all_equal:
  "\<exists>self. Sorter ge0 JNull = Inr self \<and> sortSpecParts self = [] \<and>
     getComparator lookup cmp self None doc1 doc2 = Inr 0"
  by (simp add: Sorter_def getComparator_def getBaseComparator_def)

theorem null_spec_all_equal_witness:
  "\<exists>self. Sorter no_coercion JNull = Inr self \<and> sortSpecParts self = [] \<and>
     getComparator path_lookup value_cmp self None doc_x doc_y = Inr 0"
  by (rule null_spec_all_equal)

lemma getComparator_distances:
  "getComparator lookup cmp self (Some distances) a b =
     (case getBaseComparator lookup cmp self a b of
        Inl e \<Rightarrow> Inl e
      | Inr c \<Rightarrow> if c \<noteq> 0 then Inr c else distanceComparator distances a b)"
  by (simp add: getComparator_def split: sum.splits)

text \<open>
  C3, as amended: with a distance map, the comparator first applies the base comparator
  of documents and returns its failure, or its result when that is not zero, without
  reading the map; when the base comparator yields zero it fails with
  \<open>MissingDistance\<close> if the identifier of the first document, or else of the second,
  is absent from the map, and otherwise returns
  \<^verbatim>\<open>distance[docA.id] - distance[docB.id]\<close>, so that the closer document comes first.
\<close>

theorem distance_tie_break:
  assumes "property a ''_id'' = Inr ida" and "property b ''_id'' = Inr idb"
  shows "(getBaseComparator lookup cmp self a b = Inl e \<longrightarrow>
            getComparator lookup cmp self (Some distances) a b = Inl e)
       \<and> (getBaseComparator lookup cmp self a b = Inr c \<and> c \<noteq> 0 \<longrightarrow>
            getComparator lookup cmp self (Some distances) a b = Inr c)
       \<and> (getBaseComparator lookup cmp self a b = Inr 0 \<longrightarrow>
            (distances ida = None \<longrightarrow>
               getComparator lookup cmp self (Some distances) a b = Inl (MissingDistance ida))
          \<and> (distances ida = Some da \<and> distances idb = None \<longrightarrow>
               getComparator lookup cmp self (Some distances) a b = Inl (MissingDistance idb))
          \<and> (distances ida = Some da \<and> distances idb = Some db \<longrightarrow>
               getComparator lookup cmp self (Some distances) a b = Inr (da - db)))"
  using assms by (simp add: getComparator_distances distanceComparator_def)

theorem distance_tie_break_witness:
  "property doc_x ''_id'' = Inr (JStr ''x'') \<and> property doc_y ''_id'' = Inr (JStr ''y'')
   \<and> getBaseComparator path_lookup value_cmp \<lparr>sortSpecParts = []\<rparr> doc_x doc_y = Inr 0
   \<and> getComparator path_lookup value_cmp \<lparr>sortSpecParts = []\<rparr> (Some example_distances)
       doc_x doc_y = Inr (1 - 2)
   \<and> getComparator path_lookup value_cmp \<lparr>sortSpecParts = []\<rparr> (Some no_distances)
       doc_x doc_y = Inl (MissingDistance (JStr ''x''))"
proof -
  have ids: "property doc_x ''_id'' = Inr (JStr ''x'')" "property doc_y ''_id'' = Inr (JStr ''y'')"
    by (simp_all add: doc_x_def doc_y_def)
  have base: "getBaseComparator path_lookup value_cmp \<lparr>sortSpecParts = []\<rparr> doc_x doc_y = Inr 0"
    by (simp add: getBaseComparator_def)
  have "example_distances (JStr ''x'') = Some 1" "example_distances (JStr ''y'') = Some 2"
    "no_distances (JStr ''x'') = None"
    by (simp_all add: example_distances_def no_distances_def)
  with ids base
    distance_tie_break [OF ids, of path_lookup value_cmp "\<lparr>sortSpecParts = []\<rparr>" _ example_distances _ 1 2]
    distance_tie_break [OF ids, of path_lookup value_cmp "\<lparr>sortSpecParts = []\<rparr>" _ no_distances]
  show ?thesis by simp
qed

text \<open>
  The claim C3 as it is stated fails twice. With distances 1 and 2 for two documents
  that tie, the result is \<open>1 - 2\<close>, whose sign is not that of
  \<^verbatim>\<open>distance[docB.id] - distance[docA.id]\<close>; and when the base comparator does not
  yield zero, identifiers absent from the map cause no failure.
\<close>

theorem distance_tie_break_counterexample:
  "getComparator path_lookup value_cmp \<lparr>sortSpecParts = []\<rparr> (Some example_distances)
     doc_x doc_y = Inr (- 1)
   \<and> example_distances (JStr ''x'') = Some 1 \<and> example_distances (JStr ''y'') = Some 2
   \<and> sgn (- 1 :: int) \<noteq> sgn (2 - 1)
   \<and> no_distances (JStr ''x'') = None
   \<and> getComparator path_lookup value_cmp
        \<lparr>sortSpecParts = [\<lparr>path = ''a'', ascending = True\<rparr>]\<rparr> (Some no_distances)
        doc_x doc_y = Inr (- 2)"
  by (simp add: getComparator_distances getBaseComparator_def distanceComparator_def
      example_distances_def doc_x_def doc_y_def no_distances_def getMinKeyFromDoc_def
      generateKeysFromDoc_def field_step_def path_lookup_def branch_step_def minKeyStep_def
      sole_value_def has_def get_def compareKeys_def keyComparator_def keyFieldComparator_def
      key_at_def value_cmp_def)

subsection \<open>The constructor\<close>

lemma each_object_step_invalid:
  "\<exists>kv\<in>set kvs. invalid_path (fst kv) \<Longrightarrow>
   \<exists>msg. each (object_step ge0) kvs parts = Inl (InvalidSpec msg)"
proof (induction kvs arbitrary: parts)
  case Nil
  then show ?case by simp
next
  case (Cons kv kvs)
  show ?case
  proof (cases "object_step ge0 parts kv")
    case (Inl e)
    then obtain msg where "e = InvalidSpec msg"
      by (auto simp: object_step_def addSpecPart_def split: if_splits)
    with Inl show ?thesis by simp
  next
    case (Inr parts')
    then have "\<not> invalid_path (fst kv)"
      by (auto simp: object_step_def addSpecPart_def invalid_path_def split: if_splits)
    with Cons.prems have "\<exists>kv\<in>set kvs. invalid_path (fst kv)" by auto
    from Cons.IH [OF this] Inr show ?thesis by simp
  qed
qed

lemma array_step_shaped:
  "element_path x = Some p \<Longrightarrow>
   array_step parts x =
     addSpecPart parts (JStr p)
       (case x of JStr s \<Rightarrow> True | _ \<Rightarrow> index x 1 \<noteq> Inr (JStr ''desc''))"
  by (cases x rule: element_path.cases) (auto simp: array_step_def)

lemma each_array_step_invalid:
  "\<forall>x\<in>set xs. element_path x \<noteq> None \<Longrightarrow>
   \<exists>x\<in>set xs. invalid_path (the (element_path x)) \<Longrightarrow>
   \<exists>msg. each array_step xs parts = Inl (InvalidSpec msg)"
proof (induction xs arbitrary: parts)
  case Nil
  then show ?case by simp
next
  case (Cons x xs)
  from Cons.prems(1) obtain p where p: "element_path x = Some p" by auto
  note step = array_step_shaped [OF p, of parts]
  show ?case
  proof (cases "array_step parts x")
    case (Inl e)
    then obtain msg where "e = InvalidSpec msg"
      unfolding step by (auto simp: addSpecPart_def split: if_splits)
    with Inl show ?thesis by simp
  next
    case (Inr parts')
    then have "\<not> invalid_path p"
      unfolding step by (auto simp: addSpecPart_def invalid_path_def split: if_splits)
    with Cons.prems p have "\<exists>x\<in>set xs. invalid_path (the (element_path x))" by auto
    moreover from Cons.prems(1) have "\<forall>x\<in>set xs. element_path x \<noteq> None" by simp
    ultimately show ?thesis using Cons.IH Inr by simp
  qed
qed

text \<open>
  C4, as amended: compiling a specification fails with \<open>InvalidSpec\<close> whenever the
  specification is \<^verbatim>\<open>undefined\<close>, a boolean, a number or a string, whenever a key
  of a mapping is empty or begins with \<^verbatim>\<open>$\<close>, and whenever, in a sequence whose
  elements are bare path strings and arrays that begin with a path string, a path is
  empty or begins with \<^verbatim>\<open>$\<close>; no sorter is produced then. The specification
  \<^verbatim>\<open>null\<close> is accepted and compiles to a sorter with no parts.
\<close>

theorem invalid_specs_rejected:
  "(spec = JUndef \<or> spec = JBool b \<or> spec = JNum n \<or> spec = JStr s \<longrightarrow>
      Sorter ge0 spec = Inl (InvalidSpec ''Bad sort specification''))
   \<and> ((\<exists>kv\<in>set kvs. invalid_path (fst kv)) \<longrightarrow>
      (\<exists>msg. Sorter ge0 (JObj kvs) = Inl (InvalidSpec msg)))
   \<and> ((\<forall>x\<in>set xs. element_path x \<noteq> None) \<and>
      (\<exists>x\<in>set xs. invalid_path (the (element_path x))) \<longrightarrow>
      (\<exists>msg. Sorter ge0 (JArr xs) = Inl (InvalidSpec msg)))
   \<and> Sorter ge0 JNull = Inr \<lparr>sortSpecParts = []\<rparr>"
proof -
  have 1: "spec = JUndef \<or> spec = JBool b \<or> spec = JNum n \<or> spec = JStr s \<longrightarrow>
      Sorter ge0 spec = Inl (InvalidSpec ''Bad sort specification'')"
    by (auto simp: Sorter_def)
  have 2: "(\<exists>kv\<in>set kvs. invalid_path (fst kv)) \<longrightarrow>
      (\<exists>msg. Sorter ge0 (JObj kvs) = Inl (InvalidSpec msg))"
  proof
    assume "\<exists>kv\<in>set kvs. invalid_path (fst kv)"
    then obtain msg where "each (object_step ge0) kvs [] = Inl (InvalidSpec msg)"
      using each_object_step_invalid by blast
    then show "\<exists>msg. Sorter ge0 (JObj kvs) = Inl (InvalidSpec msg)"
      by (simp add: Sorter_def)
  qed
  have 3: "(\<forall>x\<in>set xs. element_path x \<noteq> None) \<and>
      (\<exists>x\<in>set xs. invalid_path (the (element_path x))) \<longrightarrow>
      (\<exists>msg. Sorter ge0 (JArr xs) = Inl (InvalidSpec msg))"
  proof
    assume "(\<forall>x\<in>set xs. element_path x \<noteq> None) \<and>
      (\<exists>x\<in>set xs. invalid_path (the (element_path x)))"
    then obtain msg where "each array_step xs [] = Inl (InvalidSpec msg)"
      using each_array_step_invalid by blast
    then show "\<exists>msg. Sorter ge0 (JArr xs) = Inl (InvalidSpec msg)"
      by (simp add: Sorter_def)
  qed
  have 4: "Sorter ge0 JNull = Inr \<lparr>sortSpecParts = []\<rparr>"
    by (simp add: Sorter_def)
  from 1 2 3 4 show ?thesis by blast
qed

theorem invalid_specs_rejected_witness:
  "Sorter no_coercion (JNum 5) = Inl (InvalidSpec ''Bad sort specification'')
   \<and> (\<exists>msg. Sorter no_coercion (JObj [(''$gt'', JNum 1)]) = Inl (InvalidSpec msg))
   \<and> (\<exists>msg. Sorter no_coercion (JArr [JStr '''']) = Inl (InvalidSpec msg))
   \<and> Sorter no_coercion JNull = Inr \<lparr>sortSpecParts = []\<rparr>"
  using invalid_specs_rejected [of "JNum 5" _ 5 _ no_coercion "[(''$gt'', JNum 1)]" "[JStr '''']"]
  by (simp add: invalid_path_def)

text \<open>
  The claim C4 as it is stated fails: \<^verbatim>\<open>null\<close> is none of the three accepted shapes
  and compiles to a sorter, and so does a sequence whose element is an object with a
  property \<^verbatim>\<open>0\<close>, which is neither a path string nor a pair.
\<close>

theorem invalid_specs_rejected_counterexample:
  "Sorter no_coercion JNull = Inr \<lparr>sortSpecParts = []\<rparr>
   \<and> Sorter no_coercion (JArr [JObj [(''0'', JStr ''a'')]]) =
       Inr \<lparr>sortSpecParts = [\<lparr>path = ''a'', ascending = True\<rparr>]\<rparr>"
  by (simp add: Sorter_def array_step_def addSpecPart_def string_of_nat.simps digit_def)

lemma addSpecPart_valid:
  "\<not> invalid_path p \<Longrightarrow>
   addSpecPart parts (JStr p) asc = Inr (parts @ [\<lparr>path = p, ascending = asc\<rparr>])"
  by (simp add: addSpecPart_def invalid_path_def)

lemma each_object_step_valid:
  "\<forall>kv\<in>set kvs. \<not> invalid_path (fst kv) \<Longrightarrow>
   each (object_step ge0) kvs parts =
     Inr (parts @ map (\<lambda>kv. \<lparr>path = fst kv, ascending = ge_zero ge0 (snd kv)\<rparr>) kvs)"
  by (induction kvs arbitrary: parts) (simp_all add: object_step_def addSpecPart_valid)

lemma array_step_element:
  assumes "element_path x = Some p"
  shows "array_step parts x = addSpecPart parts (JStr p) (element_ascending x)"
proof (cases x rule: element_path.cases)
  case (1 s)
  with assms show ?thesis by (simp add: array_step_def)
next
  case (2 s rest)
  with assms show ?thesis by (cases rest) (simp_all add: array_step_def)
qed (use assms in simp_all)

lemma each_array_step_valid:
  "\<forall>x\<in>set xs. \<exists>p. element_path x = Some p \<and> \<not> invalid_path p \<Longrightarrow>
   each array_step xs parts =
     Inr (parts @ map (\<lambda>x. \<lparr>path = the (element_path x), ascending = element_ascending x\<rparr>) xs)"
proof (induction xs arbitrary: parts)
  case Nil
  then show ?case by simp
next
  case (Cons x xs)
  from Cons.prems obtain p where p: "element_path x = Some p" "\<not> invalid_path p" by auto
  from Cons.prems have "\<forall>x\<in>set xs. \<exists>p. element_path x = Some p \<and> \<not> invalid_path p" by simp
  from Cons.IH [OF this] p show ?case
    by (simp add: array_step_element [OF p(1)] addSpecPart_valid)
qed

text \<open>
  C5: the specifications \<^verbatim>\<open>{"a":1,"b":-1}\<close>, \<^verbatim>\<open>[["a","asc"],["b","desc"]]\<close> and
  \<^verbatim>\<open>["a",["b","desc"]]\<close> all compile to the parts \<open>a\<close> ascending, \<open>b\<close> descending,
  so that their comparators return the same result on every pair of documents, with or
  without distances. In general a mapping whose keys are accepted paths compiles to one
  part for each entry, in order, ascending exactly when the weight is \<open>\<ge> 0\<close>, and a
  sequence of bare path strings and pairs with accepted paths compiles to one part for
  each element, a bare path string ascending and a pair descending exactly when its
  direction is the literal \<^verbatim>\<open>"desc"\<close>.
\<close>

theorem spec_shapes_equivalent:
  "Sorter ge0 (JObj [(''a'', JNum 1), (''b'', JNum (- 1))]) =
     Inr \<lparr>sortSpecParts = [\<lparr>path = ''a'', ascending = True\<rparr>, \<lparr>path = ''b'', ascending = False\<rparr>]\<rparr>
   \<and> Sorter ge0 (JArr [JArr [JStr ''a'', JStr ''asc''], JArr [JStr ''b'', JStr ''desc'']]) =
     Inr \<lparr>sortSpecParts = [\<lparr>path = ''a'', ascending = True\<rparr>, \<lparr>path = ''b'', ascending = False\<rparr>]\<rparr>
   \<and> Sorter ge0 (JArr [JStr ''a'', JArr [JStr ''b'', JStr ''desc'']]) =
     Inr \<lparr>sortSpecParts = [\<lparr>path = ''a'', ascending = True\<rparr>, \<lparr>path = ''b'', ascending = False\<rparr>]\<rparr>
   \<and> (\<exists>s1 s2 s3.
      Sorter ge0 (JObj [(''a'', JNum 1), (''b'', JNum (- 1))]) = Inr s1
    \<and> Sorter ge0 (JArr [JArr [JStr ''a'', JStr ''asc''], JArr [JStr ''b'', JStr ''desc'']]) = Inr s2
    \<and> Sorter ge0 (JArr [JStr ''a'', JArr [JStr ''b'', JStr ''desc'']]) = Inr s3
    \<and> (\<forall>lookup cmp options doc1 doc2.
          getComparator lookup cmp s1 options doc1 doc2 =
            getComparator lookup cmp s2 options doc1 doc2
        \<and> getComparator lookup cmp s2 options doc1 doc2 =
            getComparator lookup cmp s3 options doc1 doc2))
   \<and> ((\<forall>kv\<in>set kvs. \<not> invalid_path (fst kv)) \<longrightarrow>
        Sorter ge0 (JObj kvs) =
          Inr \<lparr>sortSpecParts =
                 map (\<lambda>kv. \<lparr>path = fst kv, ascending = ge_zero ge0 (snd kv)\<rparr>) kvs\<rparr>)
   \<and> ((\<forall>x\<in>set xs. \<exists>q. element_path x = Some q \<and> \<not> invalid_path q) \<longrightarrow>
        Sorter ge0 (JArr xs) =
          Inr \<lparr>sortSpecParts =
                 map (\<lambda>x. \<lparr>path = the (element_path x), ascending = element_ascending x\<rparr>) xs\<rparr>)
   \<and> (\<not> invalid_path p \<longrightarrow>
        Sorter ge0 (JObj [(p, JNum w)]) = Inr \<lparr>sortSpecParts = [\<lparr>path = p, ascending = (0 \<le> w)\<rparr>]\<rparr>
      \<and> Sorter ge0 (JArr [JStr p]) = Inr \<lparr>sortSpecParts = [\<lparr>path = p, ascending = True\<rparr>]\<rparr>
      \<and> Sorter ge0 (JArr [JArr [JStr p, d]]) =
          Inr \<lparr>sortSpecParts = [\<lparr>path = p, ascending = (d \<noteq> JStr ''desc'')\<rparr>]\<rparr>
      \<and> object_step ge0 parts (p, JNum w) = Inr (parts @ [\<lparr>path = p, ascending = (0 \<le> w)\<rparr>])
      \<and> array_step parts (JStr p) = Inr (parts @ [\<lparr>path = p, ascending = True\<rparr>])
      \<and> array_step parts (JArr [JStr p, d]) =
          Inr (parts @ [\<lparr>path = p, ascending = (d \<noteq> JStr ''desc'')\<rparr>]))"
proof -
  have a: "\<not> invalid_path ''a''" and b: "\<not> invalid_path ''b''"
    by (simp_all add: invalid_path_def)
  have 1: "Sorter ge0 (JObj [(''a'', JNum 1), (''b'', JNum (- 1))]) =
          Inr \<lparr>sortSpecParts = [\<lparr>path = ''a'', ascending = True\<rparr>, \<lparr>path = ''b'', ascending = False\<rparr>]\<rparr>"
    by (simp add: Sorter_def object_step_def addSpecPart_valid [OF a] addSpecPart_valid [OF b])
  have 2: "Sorter ge0 (JArr [JArr [JStr ''a'', JStr ''asc''], JArr [JStr ''b'', JStr ''desc'']]) =
          Inr \<lparr>sortSpecParts = [\<lparr>path = ''a'', ascending = True\<rparr>, \<lparr>path = ''b'', ascending = False\<rparr>]\<rparr>"
    by (simp add: Sorter_def array_step_def addSpecPart_valid [OF a] addSpecPart_valid [OF b])
  have 3: "Sorter ge0 (JArr [JStr ''a'', JArr [JStr ''b'', JStr ''desc'']]) =
          Inr \<lparr>sortSpecParts = [\<lparr>path = ''a'', ascending = True\<rparr>, \<lparr>path = ''b'', ascending = False\<rparr>]\<rparr>"
    by (simp add: Sorter_def array_step_def addSpecPart_valid [OF a] addSpecPart_valid [OF b])
  have 4: "(\<forall>kv\<in>set kvs. \<not> invalid_path (fst kv)) \<longrightarrow>
        Sorter ge0 (JObj kvs) =
          Inr \<lparr>sortSpecParts =
                 map (\<lambda>kv. \<lparr>path = fst kv, ascending = ge_zero ge0 (snd kv)\<rparr>) kvs\<rparr>"
    by (simp add: Sorter_def each_object_step_valid)
  have 5: "(\<forall>x\<in>set xs. \<exists>q. element_path x = Some q \<and> \<not> invalid_path q) \<longrightarrow>
        Sorter ge0 (JArr xs) =
          Inr \<lparr>sortSpecParts =
                 map (\<lambda>x. \<lparr>path = the (element_path x), ascending = element_ascending x\<rparr>) xs\<rparr>"
    by (simp add: Sorter_def each_array_step_valid)
  have 6: "\<not> invalid_path p \<longrightarrow>
        Sorter ge0 (JObj [(p, JNum w)]) = Inr \<lparr>sortSpecParts = [\<lparr>path = p, ascending = (0 \<le> w)\<rparr>]\<rparr>
      \<and> Sorter ge0 (JArr [JStr p]) = Inr \<lparr>sortSpecParts = [\<lparr>path = p, ascending = True\<rparr>]\<rparr>
      \<and> Sorter ge0 (JArr [JArr [JStr p, d]]) =
          Inr \<lparr>sortSpecParts = [\<lparr>path = p, ascending = (d \<noteq> JStr ''desc'')\<rparr>]\<rparr>
      \<and> object_step ge0 parts (p, JNum w) = Inr (parts @ [\<lparr>path = p, ascending = (0 \<le> w)\<rparr>])
      \<and> array_step parts (JStr p) = Inr (parts @ [\<lparr>path = p, ascending = True\<rparr>])
      \<and> array_step parts (JArr [JStr p, d]) =
          Inr (parts @ [\<lparr>path = p, ascending = (d \<noteq> JStr ''desc'')\<rparr>])"
    by (simp add: Sorter_def object_step_def array_step_def addSpecPart_valid)
  from 1 2 3 have 7: "\<exists>s1 s2 s3.
      Sorter ge0 (JObj [(''a'', JNum 1), (''b'', JNum (- 1))]) = Inr s1
    \<and> Sorter ge0 (JArr [JArr [JStr ''a'', JStr ''asc''], JArr [JStr ''b'', JStr ''desc'']]) = Inr s2
    \<and> Sorter ge0 (JArr [JStr ''a'', JArr [JStr ''b'', JStr ''desc'']]) = Inr s3
    \<and> (\<forall>lookup cmp options doc1 doc2.
          getComparator lookup cmp s1 options doc1 doc2 =
            getComparator lookup cmp s2 options doc1 doc2
        \<and> getComparator lookup cmp s2 options doc1 doc2 =
            getComparator lookup cmp s3 options doc1 doc2)"
    by simp
  from 1 2 3 7 4 5 6 show ?thesis by (intro conjI)
qed

theorem spec_shapes_equivalent_witness:
  "\<not> invalid_path ''key1'' \<and> \<not> invalid_path ''key2''
   \<and> Sorter no_coercion (JObj [(''key1'', JNum 1), (''key2'', JNum (- 1))]) =
       Inr \<lparr>sortSpecParts = [\<lparr>path = ''key1'', ascending = True\<rparr>,
                              \<lparr>path = ''key2'', ascending = False\<rparr>]\<rparr>
   \<and> Sorter no_coercion (JArr [JStr ''key1'', JArr [JStr ''key2'', JStr ''desc'']]) =
       Inr \<lparr>sortSpecParts = [\<lparr>path = ''key1'', ascending = True\<rparr>,
                              \<lparr>path = ''key2'', ascending = False\<rparr>]\<rparr>
   \<and> Sorter no_coercion (JArr [JArr [JStr ''key2'', JStr ''desc'']]) =
       Inr \<lparr>sortSpecParts = [\<lparr>path = ''key2'', ascending = False\<rparr>]\<rparr>
   \<and> array_step [] (JArr [JStr ''key1'', JStr ''asc'']) = Inr [\<lparr>path = ''key1'', ascending = True\<rparr>]"
  using spec_shapes_equivalent [of no_coercion "[(''key1'', JNum 1), (''key2'', JNum (- 1))]"
      "[JStr ''key1'', JArr [JStr ''key2'', JStr ''desc'']]" "''key2''" "- 1" "JStr ''desc''" "[]"]
    spec_shapes_equivalent [of no_coercion "[]" "[]" "''key1''" 1 "JStr ''asc''" "[]"]
  by (simp add: invalid_path_def)

subsection \<open>The loop over the branches of a part\<close>

lemma has_iff: "has obj k \<longleftrightarrow> k \<in> fst ` set obj"
  by (simp add: has_def map_of_eq_None_iff)

lemma keys_put: "fst ` set (put obj k v) = insert k (fst ` set obj)"
  by (induction obj) auto

lemma distinct_put: "distinct (map fst obj) \<Longrightarrow> distinct (map fst (put obj k v))"
  by (induction obj) (auto simp: keys_put)

lemma pathFromIndices_nonempty: "pathFromIndices indices \<noteq> []"
  by (simp add: pathFromIndices_def)

lemma branch_key_empty: "branch_key b = [] \<longleftrightarrow> arrayIndices b = None"
  by (simp add: branch_key_def pathFromIndices_nonempty split: option.splits)

lemma branch_step_Inr:
  assumes "branch_step known n st b = Inr st'"
  shows "fst st' = put (fst st) (branch_key b) (branch_value b)"
    and "snd st' = (snd st \<or> arrayIndices b \<noteq> None)"
    and "arrayIndices b = None \<Longrightarrow> n \<le> 1"
    and "arrayIndices b \<noteq> None \<Longrightarrow> known = Some kp \<Longrightarrow> has kp (branch_key b)"
    and "arrayIndices b \<noteq> None \<Longrightarrow> \<not> has (fst st) (branch_key b)"
  using assms
  by (auto simp: branch_step_def branch_key_def Let_def split: option.splits if_splits)

lemma each_branch_step_Inr:
  assumes "each (branch_step known n) bs st = Inr st'"
  shows "fst ` set (fst st') = fst ` set (fst st) \<union> branch_key ` set bs
       \<and> (distinct (map fst (fst st)) \<longrightarrow> distinct (map fst (fst st')))
       \<and> snd st' = (snd st \<or> (\<exists>b\<in>set bs. arrayIndices b \<noteq> None))
       \<and> ((\<exists>b\<in>set bs. arrayIndices b = None) \<longrightarrow> n \<le> 1)
       \<and> (\<forall>kp. known = Some kp \<longrightarrow> (\<forall>b\<in>set bs. arrayIndices b \<noteq> None \<longrightarrow> has kp (branch_key b)))"
  using assms
proof (induction bs arbitrary: st)
  case Nil
  then show ?case by simp
next
  case (Cons b bs)
  from Cons.prems obtain st1 where
    1: "branch_step known n st b = Inr st1" and 2: "each (branch_step known n) bs st1 = Inr st'"
    by (auto split: sum.splits)
  note s = branch_step_Inr [OF 1]
  note ih = Cons.IH [OF 2]
  show ?case
    using ih s(2) s(3) s(4) by (auto simp: s(1) keys_put distinct_put)
qed

lemma each_branch_step_Inl:
  "each (branch_step known n) bs st = Inl e \<Longrightarrow>
   e = InconsistentBranches \<or> e = ParallelArrayMismatch \<or> (\<exists>p. e = DuplicatePath p)"
proof (induction bs arbitrary: st)
  case Nil
  then show ?case by simp
next
  case (Cons b bs)
  then show ?case
    by (cases "branch_step known n st b")
      (auto simp: branch_step_def Let_def split: option.splits if_splits)
qed

subsection \<open>The loop over the parts\<close>

lemma found_branches_nonempty: "found_branches lookup doc spec \<noteq> []"
  by (simp add: found_branches_def)

lemma field_step_unfold:
  "field_step lookup doc st spec =
     (case each (branch_step (snd st) (length (found_branches lookup doc spec)))
             (found_branches lookup doc spec) ([], False) of
        Inl e \<Rightarrow> Inl e
      | Inr (vals, usedPaths) \<Rightarrow>
          (case snd st of
             Some known \<Rightarrow>
               if \<not> has vals [] \<and> length known \<noteq> length vals
               then Inl ParallelArrayMismatch
               else Inr (fst st @ [vals], Some known)
           | None \<Rightarrow>
               if usedPaths
               then Inr (fst st @ [vals], Some (map (\<lambda>kv. (fst kv, True)) vals))
               else Inr (fst st @ [vals], None)))"
  by (simp add: field_step_def found_branches_def Let_def)

lemma field_step_Inl:
  "field_step lookup doc st spec = Inl e \<Longrightarrow>
   e = InconsistentBranches \<or> e = ParallelArrayMismatch \<or> (\<exists>p. e = DuplicatePath p)"
  unfolding field_step_unfold
  by (auto split: sum.splits option.splits if_splits prod.splits dest: each_branch_step_Inl)

lemma field_step_appends:
  "field_step lookup doc st spec = Inr st' \<Longrightarrow> \<exists>vals. fst st' = fst st @ [vals]"
  unfolding field_step_unfold
  by (auto split: sum.splits option.splits if_splits prod.splits)

lemma field_step_inv:
  assumes step: "field_step lookup doc st spec = Inr st'" and inv: "keys_inv st"
  shows "keys_inv st'"
proof -
  let ?bs = "found_branches lookup doc spec"
  from step obtain vals used where
    loop: "each (branch_step (snd st) (length ?bs)) ?bs ([], False) = Inr (vals, used)"
    unfolding field_step_unfold by (auto split: sum.splits prod.splits)
  from each_branch_step_Inr [OF loop]
  have keys: "fst ` set vals = branch_key ` set ?bs"
    and dist: "distinct (map fst vals)"
    and used: "used = (\<exists>b\<in>set ?bs. arrayIndices b \<noteq> None)"
    and known: "\<And>kp b. snd st = Some kp \<Longrightarrow> b \<in> set ?bs \<Longrightarrow> arrayIndices b \<noteq> None \<Longrightarrow> has kp (branch_key b)"
    by auto
  show ?thesis
  proof (cases "snd st")
    case None
    show ?thesis
    proof (cases used)
      case True
      with step loop None have st': "st' = (fst st @ [vals], Some (map (\<lambda>kv. (fst kv, True)) vals))"
        unfolding field_step_unfold by simp
      from True used keys have "vals \<noteq> []" by auto
      moreover have "fst \<circ> (\<lambda>kv. (fst kv, True)) = (fst :: string \<times> jsval \<Rightarrow> string)"
        by (simp add: fun_eq_iff)
      ultimately show ?thesis
        using inv None dist by (simp add: keys_inv_def st' image_image)
    next
      case False
      with step loop None have st': "st' = (fst st @ [vals], None)"
        unfolding field_step_unfold by simp
      from False used have "\<forall>b\<in>set ?bs. branch_key b = []"
        by (simp add: branch_key_empty)
      with found_branches_nonempty [of lookup doc spec] keys have "has vals []"
        by (cases ?bs) (auto simp: has_iff)
      then show ?thesis
        using inv None by (simp add: keys_inv_def st')
    qed
  next
    case (Some kp)
    with step loop have ok: "has vals [] \<or> length kp = length vals"
      and st': "st' = (fst st @ [vals], Some kp)"
      unfolding field_step_unfold by (auto split: if_splits)
    from inv Some have kp: "kp \<noteq> []" "distinct (map fst kp)"
      and old: "\<forall>v\<in>set (fst st). has v [] \<or> fst ` set v = fst ` set kp"
      by (simp_all add: keys_inv_def)
    have "has vals [] \<or> fst ` set vals = fst ` set kp"
    proof (cases "has vals []")
      case True
      then show ?thesis by simp
    next
      case False
      with ok have len: "length kp = length vals" by simp
      from False keys have "\<forall>b\<in>set ?bs. arrayIndices b \<noteq> None"
        by (auto simp: has_iff branch_key_empty [symmetric] image_iff) 
      with known [OF Some] keys have sub: "fst ` set vals \<subseteq> fst ` set kp"
        by (auto simp: has_iff)
      have "card (fst ` set vals) = length vals"
        using dist by (metis distinct_card length_map set_map)
      moreover have "card (fst ` set kp) = length kp"
        using kp(2) by (metis distinct_card length_map set_map)
      ultimately have "card (fst ` set vals) = card (fst ` set kp)"
        using len by simp
      with sub have "fst ` set vals = fst ` set kp"
        by (simp add: card_subset_eq)
      then show ?thesis by simp
    qed
    with kp old show ?thesis by (simp add: keys_inv_def st' Some)
  qed
qed

lemma each_field_step_inv:
  "each (field_step lookup doc) parts st = Inr st' \<Longrightarrow> keys_inv st \<Longrightarrow>
   keys_inv st' \<and> length (fst st') = length (fst st) + length parts"
proof (induction parts arbitrary: st)
  case Nil
  then show ?case by simp
next
  case (Cons p parts)
  from Cons.prems(1) obtain st1 where
    1: "field_step lookup doc st p = Inr st1" and 2: "each (field_step lookup doc) parts st1 = Inr st'"
    by (auto split: sum.splits)
  from field_step_inv [OF 1 Cons.prems(2)] have "keys_inv st1" .
  from Cons.IH [OF 2 this] field_step_appends [OF 1] show ?case by auto
qed

lemma each_field_step_Inl:
  "each (field_step lookup doc) parts st = Inl e \<Longrightarrow>
   e = InconsistentBranches \<or> e = ParallelArrayMismatch \<or> (\<exists>p. e = DuplicatePath p)"
proof (induction parts arbitrary: st)
  case Nil
  then show ?case by simp
next
  case (Cons p parts)
  then show ?case
    by (cases "field_step lookup doc st p") (auto dest: field_step_Inl)
qed

lemma keys_inv_init: "keys_inv ([], None)"
  by (simp add: keys_inv_def)

subsection \<open>The keys passed to the callback\<close>

lemma map_err_sole_value:
  "\<forall>v\<in>set vs. has v [] \<Longrightarrow> map_err sole_value vs = Inr (key_for vs [])"
  by (induction vs) (simp_all add: sole_value_def key_for_def)

lemma map_err_path_value:
  "\<forall>v\<in>set vs. has v [] \<or> has v p \<Longrightarrow> map_err (path_value p) vs = Inr (key_for vs p)"
  by (induction vs) (auto simp: path_value_def key_for_def)

lemma each_cong_set:
  "(\<And>x s. x \<in> set xs \<Longrightarrow> f s x = g s x) \<Longrightarrow> each f xs s = each g xs s"
  by (induction xs arbitrary: s) (auto split: sum.splits)

lemma each_map: "each (\<lambda>s x. f s (g x)) xs s = each f (map g xs) s"
  by (induction xs arbitrary: s) (auto split: sum.splits)

lemma each_collect: "each (\<lambda>ks k. Inr (ks @ [k])) keys acc = Inr (acc @ keys)"
  by (induction keys arbitrary: acc) auto


lemma generate_explicit:
  assumes parts: "sortSpecParts self \<noteq> []"
    and steps: "each (field_step lookup doc) (sortSpecParts self) ([], None) = Inr (vs, known)"
  shows "generateKeysFromDoc lookup self doc cb s = each (\<lambda>s k. cb k s) (doc_keys vs known) s"
proof -
  from each_field_step_inv [OF steps keys_inv_init] have inv: "keys_inv (vs, known)" by simp
  show ?thesis
  proof (cases known)
    case None
    with inv have "map_err sole_value vs = Inr (key_for vs [])"
      by (simp add: keys_inv_def map_err_sole_value)
    with parts steps None show ?thesis
      by (simp add: generateKeysFromDoc_def doc_keys_def split: sum.splits)
  next
    case (Some kp)
    have "\<And>kv. kv \<in> set kp \<Longrightarrow> map_err (path_value (fst kv)) vs = Inr (key_for vs (fst kv))"
    proof (rule map_err_path_value, rule ballI)
      fix kv v assume "kv \<in> set kp" "v \<in> set vs"
      with inv Some show "has v [] \<or> has v (fst kv)"
        by (auto simp: keys_inv_def has_iff)
    qed
    then have "each (\<lambda>s' kv. case map_err (path_value (fst kv)) vs of Inl e \<Rightarrow> Inl e | Inr k \<Rightarrow> cb k s') kp s
        = each (\<lambda>s' kv. cb (key_for vs (fst kv)) s') kp s"
      by (intro each_cong_set) simp
    also have "\<dots> = each (\<lambda>s k. cb k s) (map (\<lambda>kv. key_for vs (fst kv)) kp) s"
      by (rule each_map)
    finally show ?thesis
      using parts steps Some by (simp add: generateKeysFromDoc_def doc_keys_def)
  qed
qed

lemma keysFromDoc_explicit:
  assumes "sortSpecParts self \<noteq> []"
    and "each (field_step lookup doc) (sortSpecParts self) ([], None) = Inr (vs, known)"
  shows "keysFromDoc lookup self doc = Inr (doc_keys vs known)"
  unfolding keysFromDoc_def generate_explicit [OF assms] by (simp add: each_collect)

lemma keysFromDoc_Inr:
  assumes "keysFromDoc lookup self doc = Inr keys"
  shows "sortSpecParts self \<noteq> []"
    and "\<exists>vs known. each (field_step lookup doc) (sortSpecParts self) ([], None) = Inr (vs, known)
           \<and> keys_inv (vs, known) \<and> length vs = length (sortSpecParts self)
           \<and> keys = doc_keys vs known"
proof -
  from assms show parts: "sortSpecParts self \<noteq> []"
    by (auto simp: keysFromDoc_def generateKeysFromDoc_def split: if_splits)
  from assms parts obtain vs known where
    steps: "each (field_step lookup doc) (sortSpecParts self) ([], None) = Inr (vs, known)"
    by (auto simp: keysFromDoc_def generateKeysFromDoc_def split: sum.splits)
  from each_field_step_inv [OF steps keys_inv_init] keysFromDoc_explicit [OF parts steps] assms steps
  show "\<exists>vs known. each (field_step lookup doc) (sortSpecParts self) ([], None) = Inr (vs, known)
           \<and> keys_inv (vs, known) \<and> length vs = length (sortSpecParts self)
           \<and> keys = doc_keys vs known"
    by auto
qed

lemma keysFromDoc_Inl:
  assumes "keysFromDoc lookup self doc = Inl e"
  shows "(sortSpecParts self = [] \<and> e = NoSpec) \<or>
         (sortSpecParts self \<noteq> [] \<and>
          (e = InconsistentBranches \<or> e = ParallelArrayMismatch \<or> (\<exists>p. e = DuplicatePath p)))"
proof (cases "sortSpecParts self = []")
  case True
  with assms show ?thesis by (simp add: keysFromDoc_def generateKeysFromDoc_def)
next
  case False
  show ?thesis
  proof (cases "each (field_step lookup doc) (sortSpecParts self) ([], None)")
    case (Inl e')
    with assms False have "e = e'" by (simp add: keysFromDoc_def generateKeysFromDoc_def)
    with each_field_step_Inl [OF Inl] False show ?thesis by simp
  next
    case (Inr st)
    then obtain vs known where
      "each (field_step lookup doc) (sortSpecParts self) ([], None) = Inr (vs, known)"
      by (cases st) simp
    from keysFromDoc_explicit [OF False this] assms show ?thesis by simp
  qed
qed

lemma generate_via_keys:
  "generateKeysFromDoc lookup self doc cb s =
     (case keysFromDoc lookup self doc of
        Inl e \<Rightarrow> Inl e
      | Inr keys \<Rightarrow> each (\<lambda>s k. cb k s) keys s)"
proof (cases "sortSpecParts self = []")
  case True
  then show ?thesis by (simp add: keysFromDoc_def generateKeysFromDoc_def)
next
  case False
  show ?thesis
  proof (cases "each (field_step lookup doc) (sortSpecParts self) ([], None)")
    case (Inl e')
    with False show ?thesis by (simp add: keysFromDoc_def generateKeysFromDoc_def)
  next
    case (Inr st)
    then obtain vs known where
      steps: "each (field_step lookup doc) (sortSpecParts self) ([], None) = Inr (vs, known)"
      by (cases st) simp
    show ?thesis
      by (simp add: keysFromDoc_explicit [OF False steps] generate_explicit [OF False steps])
  qed
qed

lemma doc_keys_nonempty: "keys_inv (vs, known) \<Longrightarrow> doc_keys vs known \<noteq> []"
  by (auto simp: keys_inv_def doc_keys_def split: option.splits)

lemma doc_keys_length: "k \<in> set (doc_keys vs known) \<Longrightarrow> length k = length vs"
  by (auto simp: doc_keys_def key_for_def split: option.splits)

lemma keysFromDoc_nonempty:
  assumes "keysFromDoc lookup self doc = Inr keys"
  shows "keys \<noteq> []" and "\<forall>k\<in>set keys. length k = length (sortSpecParts self)"
  using keysFromDoc_Inr(2) [OF assms] doc_keys_nonempty doc_keys_length by auto

lemma getMinKeyFromDoc_via_keys:
  "getMinKeyFromDoc lookup cmp self doc =
     (case keysFromDoc lookup self doc of
        Inl e \<Rightarrow> Inl e
      | Inr keys \<Rightarrow>
          (case each (\<lambda>m k. minKeyStep cmp self k m) keys None of
             Inl e \<Rightarrow> Inl e
           | Inr None \<Rightarrow> Inl NoKeysFound
           | Inr (Some minKey) \<Rightarrow> Inr minKey))"
  by (simp add: getMinKeyFromDoc_def generate_via_keys split: sum.splits)

lemma each_minKeyStep_Some:
  "\<forall>k\<in>set keys. length k = length (sortSpecParts self) \<Longrightarrow>
   length m = length (sortSpecParts self) \<Longrightarrow>
   \<exists>m'. each (\<lambda>m k. minKeyStep cmp self k m) keys (Some m) = Inr (Some m') \<and> m' \<in> set (m # keys)"
proof (induction keys arbitrary: m)
  case Nil
  then show ?case by simp
next
  case (Cons k keys)
  from Cons.prems obtain c where c: "compareKeys cmp self k m = Inr c"
    by (auto simp: compareKeys_eq)
  show ?case
  proof (cases "c < 0")
    case True
    with c have "minKeyStep cmp self k (Some m) = Inr (Some k)" by (simp add: minKeyStep_def)
    moreover from Cons.IH [of k] Cons.prems obtain m' where
      "each (\<lambda>m k. minKeyStep cmp self k m) keys (Some k) = Inr (Some m')" "m' \<in> set (k # keys)"
      by auto
    ultimately show ?thesis by auto
  next
    case False
    with c have "minKeyStep cmp self k (Some m) = Inr (Some m)" by (simp add: minKeyStep_def)
    moreover from Cons.IH [of m] Cons.prems obtain m' where
      "each (\<lambda>m k. minKeyStep cmp self k m) keys (Some m) = Inr (Some m')" "m' \<in> set (m # keys)"
      by auto
    ultimately show ?thesis by auto
  qed
qed

lemma getMinKeyFromDoc_Inr:
  assumes "keysFromDoc lookup self doc = Inr keys"
  shows "\<exists>m. getMinKeyFromDoc lookup cmp self doc = Inr m \<and> m \<in> set keys"
proof -
  from keysFromDoc_nonempty [OF assms] obtain k ks where
    keys: "keys = k # ks" and len: "\<forall>k\<in>set keys. length k = length (sortSpecParts self)"
    by (cases keys) auto
  from len keys each_minKeyStep_Some [of ks self k cmp] obtain m' where
    "each (\<lambda>m k. minKeyStep cmp self k m) ks (Some k) = Inr (Some m')" "m' \<in> set (k # ks)"
    by auto
  then show ?thesis
    by (simp add: getMinKeyFromDoc_via_keys assms keys minKeyStep_def)
qed

text \<open>
  C9: for a sorter with at least one part, either the extraction of the keys of a
  document fails, with \<open>InconsistentBranches\<close>, \<open>DuplicatePath\<close> or
  \<open>ParallelArrayMismatch\<close> (never with \<open>MissingPath\<close>), or it yields at least one
  candidate key, the sole unindexed key or one key for each known path key, and the
  minimum key is one of them; so the minimum key computation never fails with
  \<open>NoKeysFound\<close>.
\<close>

theorem keys_never_empty:
  "(sortSpecParts self \<noteq> [] \<longrightarrow>
      (\<exists>e. keysFromDoc lookup self doc = Inl e \<and>
           getMinKeyFromDoc lookup cmp self doc = Inl e \<and>
           (e = InconsistentBranches \<or> e = ParallelArrayMismatch \<or> (\<exists>p. e = DuplicatePath p)))
    \<or> (\<exists>vs known m.
           each (field_step lookup doc) (sortSpecParts self) ([], None) = Inr (vs, known) \<and>
           keysFromDoc lookup self doc = Inr (doc_keys vs known) \<and>
           doc_keys vs known \<noteq> [] \<and>
           getMinKeyFromDoc lookup cmp self doc = Inr m \<and> m \<in> set (doc_keys vs known)))
   \<and> getMinKeyFromDoc lookup cmp self doc \<noteq> Inl NoKeysFound"
proof -
  have 1: "sortSpecParts self \<noteq> [] \<longrightarrow>
      (\<exists>e. keysFromDoc lookup self doc = Inl e \<and>
           getMinKeyFromDoc lookup cmp self doc = Inl e \<and>
           (e = InconsistentBranches \<or> e = ParallelArrayMismatch \<or> (\<exists>p. e = DuplicatePath p)))
    \<or> (\<exists>vs known m.
           each (field_step lookup doc) (sortSpecParts self) ([], None) = Inr (vs, known) \<and>
           keysFromDoc lookup self doc = Inr (doc_keys vs known) \<and>
           doc_keys vs known \<noteq> [] \<and>
           getMinKeyFromDoc lookup cmp self doc = Inr m \<and> m \<in> set (doc_keys vs known))"
  proof
    assume parts: "sortSpecParts self \<noteq> []"
    show "(\<exists>e. keysFromDoc lookup self doc = Inl e \<and>
           getMinKeyFromDoc lookup cmp self doc = Inl e \<and>
           (e = InconsistentBranches \<or> e = ParallelArrayMismatch \<or> (\<exists>p. e = DuplicatePath p)))
    \<or> (\<exists>vs known m.
           each (field_step lookup doc) (sortSpecParts self) ([], None) = Inr (vs, known) \<and>
           keysFromDoc lookup self doc = Inr (doc_keys vs known) \<and>
           doc_keys vs known \<noteq> [] \<and>
           getMinKeyFromDoc lookup cmp self doc = Inr m \<and> m \<in> set (doc_keys vs known))"
    proof (cases "keysFromDoc lookup self doc")
      case (Inl e)
      from keysFromDoc_Inl [OF Inl] parts
      have "e = InconsistentBranches \<or> e = ParallelArrayMismatch \<or> (\<exists>p. e = DuplicatePath p)"
        by simp
      moreover from Inl have "getMinKeyFromDoc lookup cmp self doc = Inl e"
        by (simp add: getMinKeyFromDoc_via_keys)
      ultimately show ?thesis using Inl by simp
    next
      case (Inr keys)
      from keysFromDoc_Inr(2) [OF Inr] obtain vs known where
        steps: "each (field_step lookup doc) (sortSpecParts self) ([], None) = Inr (vs, known)"
        and eq: "keys = doc_keys vs known"
        by auto
      from keysFromDoc_nonempty(1) [OF Inr] have "keys \<noteq> []" .
      moreover from getMinKeyFromDoc_Inr [OF Inr, of cmp] obtain m where
        "getMinKeyFromDoc lookup cmp self doc = Inr m" "m \<in> set keys" by auto
      ultimately show ?thesis using Inr steps eq by auto
    qed
  qed
  have 2: "getMinKeyFromDoc lookup cmp self doc \<noteq> Inl NoKeysFound"
  proof (cases "keysFromDoc lookup self doc")
    case (Inl e')
    with keysFromDoc_Inl [OF Inl] show ?thesis by (auto simp: getMinKeyFromDoc_via_keys)
  next
    case (Inr ks)
    from getMinKeyFromDoc_Inr [OF Inr, of cmp] show ?thesis by auto
  qed
  from 1 2 show ?thesis by (rule conjI)
qed

lemma keys_multikey:
  "keysFromDoc path_lookup sorter_xy doc_multikey = Inr [[JNum 0, JNum 5], [JNum 1, JNum 3]]"
  by code_simp

theorem keys_never_empty_witness:
  "sortSpecParts sorter_xy \<noteq> []
   \<and> (\<exists>keys m. keysFromDoc path_lookup sorter_xy doc_multikey = Inr keys \<and> keys \<noteq> [] \<and>
         getMinKeyFromDoc path_lookup value_cmp sorter_xy doc_multikey = Inr m \<and> m \<in> set keys)
   \<and> getMinKeyFromDoc path_lookup value_cmp sorter_xy doc_multikey \<noteq> Inl NoKeysFound"
proof -
  have parts: "sortSpecParts sorter_xy \<noteq> []" by (simp add: sorter_xy_def)
  note inst = keys_never_empty [of sorter_xy path_lookup doc_multikey value_cmp]
  from inst parts keys_multikey obtain vs known m where
    "keysFromDoc path_lookup sorter_xy doc_multikey = Inr (doc_keys vs known)"
    "doc_keys vs known \<noteq> []"
    "getMinKeyFromDoc path_lookup value_cmp sorter_xy doc_multikey = Inr m"
    "m \<in> set (doc_keys vs known)"
    by auto
  then have "\<exists>keys m. keysFromDoc path_lookup sorter_xy doc_multikey = Inr keys \<and> keys \<noteq> [] \<and>
         getMinKeyFromDoc path_lookup value_cmp sorter_xy doc_multikey = Inr m \<and> m \<in> set keys"
    by blast
  with inst parts show ?thesis by simp
qed

subsection \<open>A part without branches\<close>

lemma field_step_no_branches:
  "lookup (path spec) doc = [] \<Longrightarrow>
   field_step lookup doc st spec = Inr (fst st @ [[([], JNull)]], snd st)"
  by (simp add: field_step_def branch_step_def has_def split: option.splits)

lemma field_step_null_lookup:
  "field_step null_lookup doc st spec = Inr (fst st @ [[([], JNull)]], snd st)"
  by (simp add: field_step_def branch_step_def has_def null_lookup_def split: option.splits)

lemma each_field_step_prefix:
  "each (field_step lookup doc) parts st = Inr st' \<Longrightarrow>
   \<exists>ws. fst st' = fst st @ ws \<and> length ws = length parts"
proof (induction parts arbitrary: st)
  case Nil
  then show ?case by simp
next
  case (Cons p parts)
  from Cons.prems obtain st1 where
    1: "field_step lookup doc st p = Inr st1" and 2: "each (field_step lookup doc) parts st1 = Inr st'"
    by (auto split: sum.splits)
  from field_step_appends [OF 1] obtain v where v: "fst st1 = fst st @ [v]" by auto
  from Cons.IH [OF 2] obtain ws where "fst st' = fst st1 @ ws" "length ws = length parts" by auto
  with v have "fst st' = fst st @ (v # ws) \<and> length (v # ws) = length (p # parts)" by simp
  then show ?case by blast
qed

lemma each_field_step_no_branches:
  "each (field_step lookup doc) parts st = Inr st' \<Longrightarrow> i < length parts \<Longrightarrow>
   lookup (path (parts ! i)) doc = [] \<Longrightarrow>
   fst st' ! (length (fst st) + i) = [([], JNull)]"
proof (induction parts arbitrary: st i)
  case Nil
  then show ?case by simp
next
  case (Cons p parts)
  from Cons.prems(1) obtain st1 where
    1: "field_step lookup doc st p = Inr st1" and 2: "each (field_step lookup doc) parts st1 = Inr st'"
    by (auto split: sum.splits)
  from field_step_appends [OF 1] obtain v where v: "fst st1 = fst st @ [v]" by auto
  show ?case
  proof (cases i)
    case 0
    with Cons.prems(3) 1 have "v = [([], JNull)]"
      using v by (auto simp: field_step_no_branches)
    moreover from each_field_step_prefix [OF 2] v obtain ws where "fst st' = fst st @ v # ws"
      by auto
    ultimately show ?thesis using 0 by simp
  next
    case (Suc j)
    with Cons.prems have "j < length parts" "lookup (path (parts ! j)) doc = []" by simp_all
    from Cons.IH [OF 2 this] v Suc show ?thesis by simp
  qed
qed

lemma key_for_null:
  "i < length vs \<Longrightarrow> vs ! i = [([], JNull)] \<Longrightarrow> key_for vs p ! i = JNull"
  by (simp add: key_for_def has_def get_def)

lemma keys_null_at:
  assumes keys: "keysFromDoc lookup self doc = Inr keys"
    and i: "i < length (sortSpecParts self)"
    and none: "lookup (path (sortSpecParts self ! i)) doc = []"
    and k: "k \<in> set keys"
  shows "k ! i = JNull"
proof -
  from keysFromDoc_Inr(2) [OF keys] obtain vs known where
    steps: "each (field_step lookup doc) (sortSpecParts self) ([], None) = Inr (vs, known)"
    and len: "length vs = length (sortSpecParts self)" and eq: "keys = doc_keys vs known"
    by auto
  from each_field_step_no_branches [OF steps i none] have "vs ! i = [([], JNull)]" by simp
  with i len have "\<And>p. key_for vs p ! i = JNull" by (simp add: key_for_null)
  with k eq show ?thesis by (auto simp: doc_keys_def split: option.splits)
qed

lemma getMinKeyFromDoc_in_keys:
  assumes "getMinKeyFromDoc lookup cmp self doc = Inr m"
  shows "\<exists>keys. keysFromDoc lookup self doc = Inr keys \<and> m \<in> set keys"
proof (cases "keysFromDoc lookup self doc")
  case (Inl e)
  with assms show ?thesis by (simp add: getMinKeyFromDoc_via_keys)
next
  case (Inr keys)
  from getMinKeyFromDoc_Inr [OF Inr, of cmp] assms Inr show ?thesis by auto
qed

text \<open>
  C6: when the lookup of a part yields no branch in a document, the part is processed
  as if the lookup had yielded the single branch of value \<^verbatim>\<open>null\<close> with no array
  indices, so that every candidate key of the document has \<^verbatim>\<open>null\<close> at that
  part; two documents that both lack the field compare equal on it, the Value
  Comparator finding \<^verbatim>\<open>null\<close> equal to itself.
\<close>

theorem missing_field_is_null:
  assumes "i < length (sortSpecParts self)"
    and "lookup (path (sortSpecParts self ! i)) doc1 = []"
  shows "field_step lookup doc1 st (sortSpecParts self ! i) =
           field_step null_lookup doc1 st (sortSpecParts self ! i)
       \<and> (keysFromDoc lookup self doc1 = Inr keys \<longrightarrow> (\<forall>k\<in>set keys. k ! i = JNull))
       \<and> (lookup (path (sortSpecParts self ! i)) doc2 = [] \<and>
          getMinKeyFromDoc lookup cmp self doc1 = Inr key1 \<and>
          getMinKeyFromDoc lookup cmp self doc2 = Inr key2 \<and> cmp JNull JNull = 0 \<longrightarrow>
          keyFieldComparator cmp self i key1 key2 = Inr 0)"
proof (intro conjI)
  show "field_step lookup doc1 st (sortSpecParts self ! i) =
           field_step null_lookup doc1 st (sortSpecParts self ! i)"
    using assms(2) by (simp add: field_step_no_branches field_step_null_lookup)
  show "keysFromDoc lookup self doc1 = Inr keys \<longrightarrow> (\<forall>k\<in>set keys. k ! i = JNull)"
    using keys_null_at [of lookup self doc1 keys i] assms by blast
  show "lookup (path (sortSpecParts self ! i)) doc2 = [] \<and>
         getMinKeyFromDoc lookup cmp self doc1 = Inr key1 \<and>
         getMinKeyFromDoc lookup cmp self doc2 = Inr key2 \<and> cmp JNull JNull = 0 \<longrightarrow>
         keyFieldComparator cmp self i key1 key2 = Inr 0"
  proof (intro impI, elim conjE)
    assume none2: "lookup (path (sortSpecParts self ! i)) doc2 = []"
      and m1: "getMinKeyFromDoc lookup cmp self doc1 = Inr key1"
      and m2: "getMinKeyFromDoc lookup cmp self doc2 = Inr key2"
      and refl: "cmp JNull JNull = 0"
    from getMinKeyFromDoc_in_keys [OF m1] obtain keys1 where
      k1: "keysFromDoc lookup self doc1 = Inr keys1" "key1 \<in> set keys1" by auto
    from getMinKeyFromDoc_in_keys [OF m2] obtain keys2 where
      k2: "keysFromDoc lookup self doc2 = Inr keys2" "key2 \<in> set keys2" by auto
    from keys_null_at [OF k1(1) assms k1(2)] have n1: "key1 ! i = JNull" .
    from keys_null_at [OF k2(1) assms(1) none2 k2(2)] have n2: "key2 ! i = JNull" .
    from keysFromDoc_nonempty(2) [OF k1(1)] k1(2) have l1: "length key1 = length (sortSpecParts self)" by simp
    from keysFromDoc_nonempty(2) [OF k2(1)] k2(2) have l2: "length key2 = length (sortSpecParts self)" by simp
    show "keyFieldComparator cmp self i key1 key2 = Inr 0"
      using assms(1) n1 n2 l1 l2 refl by (simp add: keyFieldComparator_def key_at_def)
  qed
qed

theorem missing_field_is_null_witness:
  "0 < length (sortSpecParts sorter_a)
   \<and> path_lookup (path (sortSpecParts sorter_a ! 0)) doc_empty = []
   \<and> path_lookup (path (sortSpecParts sorter_a ! 0)) doc_b = []
   \<and> keysFromDoc path_lookup sorter_a doc_empty = Inr [[JNull]]
   \<and> getMinKeyFromDoc path_lookup value_cmp sorter_a doc_empty = Inr [JNull]
   \<and> getMinKeyFromDoc path_lookup value_cmp sorter_a doc_b = Inr [JNull]
   \<and> value_cmp JNull JNull = 0
   \<and> keyFieldComparator value_cmp sorter_a 0 [JNull] [JNull] = Inr 0"
proof -
  have facts: "0 < length (sortSpecParts sorter_a)"
    "path_lookup (path (sortSpecParts sorter_a ! 0)) doc_empty = []"
    "path_lookup (path (sortSpecParts sorter_a ! 0)) doc_b = []"
    "keysFromDoc path_lookup sorter_a doc_empty = Inr [[JNull]]"
    "getMinKeyFromDoc path_lookup value_cmp sorter_a doc_empty = Inr [JNull]"
    "getMinKeyFromDoc path_lookup value_cmp sorter_a doc_b = Inr [JNull]"
    "value_cmp JNull JNull = 0"
    by code_simp+
  from missing_field_is_null [of 0 sorter_a path_lookup doc_empty _ "[[JNull]]" doc_b value_cmp
      "[JNull]" "[JNull]"] facts
  show ?thesis by simp
qed

subsection \<open>Parallel arrays\<close>








subsection \<open>The minimum key\<close>

lemma tp_sym: "total_preorder c \<Longrightarrow> (c a b < 0) = (0 < c b a)"
  by (simp add: total_preorder_def)

lemma tp_trans: "total_preorder c \<Longrightarrow> c a b \<le> 0 \<Longrightarrow> c b d \<le> 0 \<Longrightarrow> c a d \<le> 0"
  unfolding total_preorder_def by blast

lemma tp_zero: "total_preorder c \<Longrightarrow> (c a b = 0) = (c b a = 0)"
  using tp_sym [of c a b] tp_sym [of c b a] by auto

lemma tp_ge: "total_preorder c \<Longrightarrow> (0 \<le> c a b) = (c b a \<le> 0)"
  using tp_sym [of c a b] tp_sym [of c b a] by auto

lemma tp_less_le: 
  assumes "total_preorder c" "c a b < 0" "c b d \<le> 0"
  shows "c a d < 0"
proof (rule ccontr)
  assume "\<not> c a d < 0"
  then have "c d a \<le> 0" using tp_ge [OF assms(1), of a d] by simp
  with assms(3) have "c b a \<le> 0" using tp_trans [OF assms(1)] by blast
  with assms(2) show False using tp_sym [OF assms(1), of a b] by simp
qed

lemma tp_le_less: 
  assumes "total_preorder c" "c a b \<le> 0" "c b d < 0"
  shows "c a d < 0"
proof (rule ccontr)
  assume "\<not> c a d < 0"
  then have "c d a \<le> 0" using tp_ge [OF assms(1), of a d] by simp
  with assms(2) have "c d b \<le> 0" using tp_trans [OF assms(1)] by blast
  with assms(3) show False using tp_sym [OF assms(1), of b d] by simp
qed

lemma tp_zero_trans:
  assumes "total_preorder c" "c a b = 0" "c b d = 0"
  shows "c a d = 0"
proof -
  from assms have "c a d \<le> 0" using tp_trans [OF assms(1), of a b d] by simp
  moreover from assms have "c d b = 0" "c b a = 0" using tp_zero [OF assms(1)] by auto
  then have "c d a \<le> 0" using tp_trans [OF assms(1), of d b a] by simp
  then have "0 \<le> c a d" using tp_ge [OF assms(1)] by simp
  ultimately show ?thesis by simp
qed

lemma tp_lex:
  assumes f: "total_preorder f" and g: "total_preorder g"
  shows "total_preorder (\<lambda>a b. if f a b \<noteq> 0 then f a b else g a b)"
  unfolding total_preorder_def
proof (intro conjI allI impI)
  fix a b
  show "((if f a b \<noteq> 0 then f a b else g a b) < 0) = (0 < (if f b a \<noteq> 0 then f b a else g b a))"
  proof (cases "f a b = 0")
    case True
    with tp_zero [OF f, of a b] have "f b a = 0" by simp
    with True tp_sym [OF g, of a b] show ?thesis by simp
  next
    case False
    with tp_zero [OF f, of a b] have "f b a \<noteq> 0" by simp
    with False tp_sym [OF f, of a b] show ?thesis by simp
  qed
next
  fix a b d
  assume h: "(if f a b \<noteq> 0 then f a b else g a b) \<le> 0 \<and> (if f b d \<noteq> 0 then f b d else g b d) \<le> 0"
  consider "f a b < 0" "f b d \<le> 0" | "f a b = 0" "f b d < 0"
    | "f a b = 0" "f b d = 0" "g a b \<le> 0" "g b d \<le> 0"
    using h by (auto split: if_splits)
  then show "(if f a d \<noteq> 0 then f a d else g a d) \<le> 0"
  proof cases
    case 1
    from tp_less_le [OF f 1] show ?thesis by simp
  next
    case 2
    from tp_le_less [OF f _ 2(2), of a] 2(1) show ?thesis by simp
  next
    case 3
    from tp_zero_trans [OF f 3(1,2)] tp_trans [OF g 3(3,4)] show ?thesis by simp
  qed
qed

lemma tp_const: "total_preorder (\<lambda>a b. 0)"
  by (simp add: total_preorder_def)

lemma tp_field:
  assumes "total_preorder cmp"
  shows "total_preorder (\<lambda>key1 key2. field_result cmp self key1 key2 i)"
proof (cases "ascending (sortSpecParts self ! i)")
  case True
  have "total_preorder (\<lambda>key1 key2. cmp (key1 ! i) (key2 ! i))"
    unfolding total_preorder_def
  proof (intro conjI allI impI)
    fix a b :: key
    show "(cmp (a ! i) (b ! i) < 0) = (0 < cmp (b ! i) (a ! i))"
      by (rule tp_sym [OF assms])
  next
    fix a b d :: key
    assume "cmp (a ! i) (b ! i) \<le> 0 \<and> cmp (b ! i) (d ! i) \<le> 0"
    then show "cmp (a ! i) (d ! i) \<le> 0" using tp_trans [OF assms] by blast
  qed
  with True show ?thesis by (simp add: field_result_def)
next
  case False
  have "total_preorder (\<lambda>key1 key2. - cmp (key1 ! i) (key2 ! i))"
    unfolding total_preorder_def
  proof (intro conjI allI impI)
    fix a b :: key
    show "(- cmp (a ! i) (b ! i) < 0) = (0 < - cmp (b ! i) (a ! i))"
      using tp_sym [OF assms, of "b ! i" "a ! i"] by simp
  next
    fix a b d :: key
    assume "- cmp (a ! i) (b ! i) \<le> 0 \<and> - cmp (b ! i) (d ! i) \<le> 0"
    then have "cmp (b ! i) (a ! i) \<le> 0" "cmp (d ! i) (b ! i) \<le> 0"
      using tp_ge [OF assms] by simp_all
    then have "cmp (d ! i) (a ! i) \<le> 0" using tp_trans [OF assms] by blast
    then show "- cmp (a ! i) (d ! i) \<le> 0" using tp_ge [OF assms] by simp
  qed
  with False show ?thesis by (simp add: field_result_def)
qed

lemma tp_first_nonzero:
  assumes "total_preorder cmp"
  shows "total_preorder (\<lambda>key1 key2. first_nonzero (map (field_result cmp self key1 key2) js))"
proof (induction js)
  case Nil
  then show ?case by (simp add: tp_const)
next
  case (Cons j js)
  from tp_lex [OF tp_field [OF assms, of self j] Cons.IH] show ?case by simp
qed

lemma tp_key_order: "total_preorder cmp \<Longrightarrow> total_preorder (key_order cmp self)"
  using tp_first_nonzero [of cmp self "[0 ..< length (sortSpecParts self)]"]
  by (simp add: key_order_def [abs_def])

lemma compareKeys_key_order:
  "length key1 = length (sortSpecParts self) \<Longrightarrow> length key2 = length (sortSpecParts self) \<Longrightarrow>
   compareKeys cmp self key1 key2 = Inr (key_order cmp self key1 key2)"
  by (simp add: compareKeys_eq key_order_def)

lemma tp_refl: "total_preorder c \<Longrightarrow> c a a = 0"
  using tp_sym [of c a a] by (cases "c a a < 0") auto

lemma each_minKeyStep_min:
  assumes tp: "total_preorder cmp"
  shows "\<forall>k\<in>set keys. length k = length (sortSpecParts self) \<Longrightarrow>
   length m = length (sortSpecParts self) \<Longrightarrow>
   \<forall>x\<in>P. key_order cmp self m x \<le> 0 \<Longrightarrow>
   \<exists>m'. each (\<lambda>m k. minKeyStep cmp self k m) keys (Some m) = Inr (Some m') \<and>
        m' \<in> set (m # keys) \<and> (\<forall>x\<in>P \<union> set keys. key_order cmp self m' x \<le> 0)"
proof (induction keys arbitrary: m P)
  case Nil
  then show ?case by simp
next
  case (Cons k keys)
  note tpk = tp_key_order [OF tp, of self]
  from Cons.prems have c: "compareKeys cmp self k m = Inr (key_order cmp self k m)"
    by (simp add: compareKeys_key_order)
  show ?case
  proof (cases "key_order cmp self k m < 0")
    case True
    with c have step: "minKeyStep cmp self k (Some m) = Inr (Some k)" by (simp add: minKeyStep_def)
    have "\<forall>x\<in>insert k P. key_order cmp self k x \<le> 0"
    proof
      fix x assume "x \<in> insert k P"
      then show "key_order cmp self k x \<le> 0"
      proof
        assume "x = k" then show ?thesis using tp_refl [OF tpk] by simp
      next
        assume "x \<in> P"
        with Cons.prems(3) have "key_order cmp self m x \<le> 0" by simp
        with True show ?thesis using tp_trans [OF tpk, of k m x] by simp
      qed
    qed
    from Cons.IH [OF _ _ this] Cons.prems(1) obtain m' where
      "each (\<lambda>m k. minKeyStep cmp self k m) keys (Some k) = Inr (Some m')"
      "m' \<in> set (k # keys)" "\<forall>x\<in>insert k P \<union> set keys. key_order cmp self m' x \<le> 0"
      by auto
    with step show ?thesis by auto
  next
    case False
    with c have step: "minKeyStep cmp self k (Some m) = Inr (Some m)" by (simp add: minKeyStep_def)
    from False have "key_order cmp self m k \<le> 0" using tp_ge [OF tpk, of k m] by simp
    with Cons.prems(3) have "\<forall>x\<in>insert k P. key_order cmp self m x \<le> 0" by simp
    from Cons.IH [OF _ Cons.prems(2) this] Cons.prems(1) obtain m' where
      "each (\<lambda>m k. minKeyStep cmp self k m) keys (Some m) = Inr (Some m')"
      "m' \<in> set (m # keys)" "\<forall>x\<in>insert k P \<union> set keys. key_order cmp self m' x \<le> 0"
      by auto
    with step show ?thesis by auto
  qed
qed

lemma getMinKeyFromDoc_min:
  assumes tp: "total_preorder cmp" and keys: "keysFromDoc lookup self doc = Inr keys"
  shows "\<exists>m. getMinKeyFromDoc lookup cmp self doc = Inr m \<and> m \<in> set keys \<and>
           (\<forall>k\<in>set keys. \<exists>c. compareKeys cmp self m k = Inr c \<and> c \<le> 0)"
proof -
  from keysFromDoc_nonempty [OF keys] obtain k ks where
    eq: "keys = k # ks" and len: "\<forall>k\<in>set keys. length k = length (sortSpecParts self)"
    by (cases keys) auto
  have "\<forall>x\<in>{k}. key_order cmp self k x \<le> 0"
    using tp_refl [OF tp_key_order [OF tp]] by simp
  from each_minKeyStep_min [OF tp _ _ this, of ks] len eq obtain m where
    m: "each (\<lambda>m k. minKeyStep cmp self k m) ks (Some k) = Inr (Some m)"
    "m \<in> set (k # ks)" "\<forall>x\<in>{k} \<union> set ks. key_order cmp self m x \<le> 0"
    by auto
  from m(1) have "getMinKeyFromDoc lookup cmp self doc = Inr m"
    by (simp add: getMinKeyFromDoc_via_keys keys eq minKeyStep_def)
  moreover have "\<forall>x\<in>set keys. \<exists>c. compareKeys cmp self m x = Inr c \<and> c \<le> 0"
  proof
    fix x assume x: "x \<in> set keys"
    with len m(2) eq have "compareKeys cmp self m x = Inr (key_order cmp self m x)"
      by (intro compareKeys_key_order) auto
    with m(3) x eq show "\<exists>c. compareKeys cmp self m x = Inr c \<and> c \<le> 0" by auto
  qed
  ultimately show ?thesis using m(2) eq by simp
qed

lemma tp_value_cmp: "total_preorder value_cmp"
  unfolding total_preorder_def value_cmp_def
  by (auto split: if_splits)

lemma sorter_xy_compiled:
  "Sorter ge0 (JObj [(''a.x'', JNum 1), (''a.y'', JNum 1)]) = Inr sorter_xy"
  by (simp add: Sorter_def object_step_def addSpecPart_def sorter_xy_def)

lemma min_multikey:
  "getMinKeyFromDoc path_lookup value_cmp sorter_xy doc_multikey = Inr [JNum 0, JNum 5]"
  by code_simp

lemma getMinKeyFromDoc_length:
  assumes "getMinKeyFromDoc lookup cmp self doc = Inr m"
  shows "length m = length (sortSpecParts self)"
proof -
  from getMinKeyFromDoc_in_keys [OF assms] obtain keys where
    k: "keysFromDoc lookup self doc = Inr keys" "m \<in> set keys" by auto
  from keysFromDoc_nonempty(2) [OF k(1)] k(2) show ?thesis by simp
qed

lemma getBaseComparator_key_order:
  assumes "sortSpecParts self \<noteq> []"
  shows "getBaseComparator lookup cmp self doc1 doc2 =
        (case getMinKeyFromDoc lookup cmp self doc1 of
           Inl e \<Rightarrow> Inl e
         | Inr key1 \<Rightarrow>
             (case getMinKeyFromDoc lookup cmp self doc2 of
                Inl e \<Rightarrow> Inl e
              | Inr key2 \<Rightarrow> Inr (key_order cmp self key1 key2)))"
  using assms
  by (auto simp: getBaseComparator_def compareKeys_key_order getMinKeyFromDoc_length
      split: sum.splits)

lemma getMinKeyFromDoc_min_order:
  assumes tp: "total_preorder cmp" and keys: "keysFromDoc lookup self doc = Inr keys"
  shows "\<exists>m. getMinKeyFromDoc lookup cmp self doc = Inr m \<and> m \<in> set keys \<and>
           (\<forall>k\<in>set keys. key_order cmp self m k \<le> 0)"
proof -
  from getMinKeyFromDoc_min [OF tp keys] obtain m where
    m: "getMinKeyFromDoc lookup cmp self doc = Inr m" "m \<in> set keys"
    "\<forall>k\<in>set keys. \<exists>c. compareKeys cmp self m k = Inr c \<and> c \<le> 0"
    by auto
  from keysFromDoc_nonempty(2) [OF keys] have len: "\<forall>k\<in>set keys. length k = length (sortSpecParts self)" .
  have "\<forall>k\<in>set keys. key_order cmp self m k \<le> 0"
  proof
    fix k assume k: "k \<in> set keys"
    with len m(2) have "compareKeys cmp self m k = Inr (key_order cmp self m k)"
      by (intro compareKeys_key_order) auto
    with m(3) k show "key_order cmp self m k \<le> 0" by auto
  qed
  with m show ?thesis by blast
qed

lemma keys_tie:
  "keysFromDoc path_lookup sorter_xy doc_tie = Inr [[JNum 0, JNum 5], [JNum 0, JNum 3]]"
  "keysFromDoc path_lookup sorter_xy_desc doc_tie = Inr [[JNum 0, JNum 5], [JNum 0, JNum 3]]"
  by code_simp+

lemma min_tie:
  "getMinKeyFromDoc path_lookup value_cmp sorter_xy doc_tie = Inr [JNum 0, JNum 3]"
  "getMinKeyFromDoc path_lookup value_cmp sorter_xy_desc doc_tie = Inr [JNum 0, JNum 5]"
  by code_simp+

lemma base_tie:
  "getBaseComparator path_lookup value_cmp sorter_xy doc_tie doc_multikey = Inr (- 2)"
  "getBaseComparator path_lookup value_cmp sorter_xy_desc doc_tie doc_multikey = Inr 0"
  by code_simp+

lemma key_order_examples:
  "key_order value_cmp sorter_xy [JNum 0, JNum 3] [JNum 0, JNum 5] = - 2"
  "key_order value_cmp sorter_xy [JNum 0, JNum 5] [JNum 0, JNum 3] = 2"
  "key_order value_cmp sorter_xy_desc [JNum 0, JNum 5] [JNum 0, JNum 3] = - 2"
  "key_order value_cmp sorter_xy_desc [JNum 0, JNum 3] [JNum 0, JNum 5] = 2"
  "key_order value_cmp sorter_xy_desc [JNum 0, JNum 5] [JNum 0, JNum 5] = 0"
  "key_order value_cmp sorter_xy [JNum 0, JNum 3] [JNum 0, JNum 3] = 0"
  by code_simp+

text \<open>
  C1: for a sorter with at least one part, the comparator of documents returns the
  order, under the full signed key comparator of the specification (the first field
  comparison that is not zero, over all the parts in their order, each negated when its
  part is descending), of the minimum keys of the two documents; the minimum key of a
  document is one of its candidate keys and, the Value Comparator being a total
  ordering, is \<open>\<le>\<close> every candidate key in that order. In particular the candidate
  keys of \<^verbatim>\<open>{a: [{x: 0, y: 5}, {x: 1, y: 3}]}\<close> for \<^verbatim>\<open>{'a.x': 1, 'a.y': 1}\<close> are
  \<^verbatim>\<open>[0,5]\<close> and \<^verbatim>\<open>[1,3]\<close>, and its minimum key is \<^verbatim>\<open>[0,5]\<close>, not
  \<^verbatim>\<open>[0,3]\<close>; the minimum key of \<^verbatim>\<open>{a: [{x: 0, y: 5}, {x: 0, y: 3}]}\<close> is
  \<^verbatim>\<open>[0,3]\<close>, decided by the second part, and \<^verbatim>\<open>[0,5]\<close> when the second part is
  descending.
\<close>

theorem minimum_key_selection:
  "(sortSpecParts self \<noteq> [] \<longrightarrow>
      getBaseComparator lookup cmp self doc1 doc2 =
        (case getMinKeyFromDoc lookup cmp self doc1 of
           Inl e \<Rightarrow> Inl e
         | Inr key1 \<Rightarrow>
             (case getMinKeyFromDoc lookup cmp self doc2 of
                Inl e \<Rightarrow> Inl e
              | Inr key2 \<Rightarrow> Inr (key_order cmp self key1 key2))))
   \<and> (total_preorder cmp \<and> keysFromDoc lookup self doc1 = Inr keys \<longrightarrow>
        (\<exists>m. getMinKeyFromDoc lookup cmp self doc1 = Inr m \<and> m \<in> set keys \<and>
           (\<forall>k\<in>set keys. key_order cmp self m k \<le> 0)))
   \<and> key_order cmp self key1 key2 =
        first_nonzero
          (map (\<lambda>i. if ascending (sortSpecParts self ! i) then cmp (key1 ! i) (key2 ! i)
                     else - cmp (key1 ! i) (key2 ! i))
             [0 ..< length (sortSpecParts self)])
   \<and> Sorter ge0 (JObj [(''a.x'', JNum 1), (''a.y'', JNum 1)]) = Inr sorter_xy
   \<and> Sorter ge0 (JObj [(''a.x'', JNum 1), (''a.y'', JNum (- 1))]) = Inr sorter_xy_desc
   \<and> keysFromDoc path_lookup sorter_xy doc_multikey = Inr [[JNum 0, JNum 5], [JNum 1, JNum 3]]
   \<and> getMinKeyFromDoc path_lookup value_cmp sorter_xy doc_multikey = Inr [JNum 0, JNum 5]
   \<and> getMinKeyFromDoc path_lookup value_cmp sorter_xy doc_multikey \<noteq> Inr [JNum 0, JNum 3]
   \<and> keysFromDoc path_lookup sorter_xy doc_tie = Inr [[JNum 0, JNum 5], [JNum 0, JNum 3]]
   \<and> getMinKeyFromDoc path_lookup value_cmp sorter_xy doc_tie = Inr [JNum 0, JNum 3]
   \<and> getMinKeyFromDoc path_lookup value_cmp sorter_xy_desc doc_tie = Inr [JNum 0, JNum 5]
   \<and> getBaseComparator path_lookup value_cmp sorter_xy doc_tie doc_multikey = Inr (- 2)"
proof -
  have 1: "sortSpecParts self \<noteq> [] \<longrightarrow>
      getBaseComparator lookup cmp self doc1 doc2 =
        (case getMinKeyFromDoc lookup cmp self doc1 of
           Inl e \<Rightarrow> Inl e
         | Inr key1 \<Rightarrow>
             (case getMinKeyFromDoc lookup cmp self doc2 of
                Inl e \<Rightarrow> Inl e
              | Inr key2 \<Rightarrow> Inr (key_order cmp self key1 key2)))"
    using getBaseComparator_key_order by blast
  have 2: "total_preorder cmp \<and> keysFromDoc lookup self doc1 = Inr keys \<longrightarrow>
        (\<exists>m. getMinKeyFromDoc lookup cmp self doc1 = Inr m \<and> m \<in> set keys \<and>
           (\<forall>k\<in>set keys. key_order cmp self m k \<le> 0))"
    using getMinKeyFromDoc_min_order [of cmp lookup self doc1 keys] by blast
  have 3: "key_order cmp self key1 key2 =
        first_nonzero
          (map (\<lambda>i. if ascending (sortSpecParts self ! i) then cmp (key1 ! i) (key2 ! i)
                     else - cmp (key1 ! i) (key2 ! i))
             [0 ..< length (sortSpecParts self)])"
    by (simp add: key_order_def field_result_def [abs_def])
  have 4: "Sorter ge0 (JObj [(''a.x'', JNum 1), (''a.y'', JNum (- 1))]) = Inr sorter_xy_desc"
    by (simp add: Sorter_def object_step_def addSpecPart_def sorter_xy_desc_def)
  have 5: "getMinKeyFromDoc path_lookup value_cmp sorter_xy doc_multikey \<noteq> Inr [JNum 0, JNum 3]"
    by (simp add: min_multikey)
  from 1 2 3 sorter_xy_compiled 4 keys_multikey min_multikey 5 keys_tie(1) min_tie base_tie(1)
  show ?thesis by (intro conjI)
qed

theorem minimum_key_selection_witness:
  "total_preorder value_cmp
   \<and> sortSpecParts sorter_xy_desc \<noteq> []
   \<and> keysFromDoc path_lookup sorter_xy_desc doc_tie = Inr [[JNum 0, JNum 5], [JNum 0, JNum 3]]
   \<and> (\<exists>m. getMinKeyFromDoc path_lookup value_cmp sorter_xy_desc doc_tie = Inr m \<and>
          m \<in> set [[JNum 0, JNum 5], [JNum 0, JNum 3]] \<and>
          key_order value_cmp sorter_xy_desc m [JNum 0, JNum 5] \<le> 0 \<and>
          key_order value_cmp sorter_xy_desc m [JNum 0, JNum 3] \<le> 0 \<and>
          m = [JNum 0, JNum 5])
   \<and> key_order value_cmp sorter_xy_desc [JNum 0, JNum 3] [JNum 0, JNum 5] = 2
   \<and> key_order value_cmp sorter_xy_desc [JNum 0, JNum 5] [JNum 0, JNum 3] = - 2
   \<and> key_order value_cmp sorter_xy [JNum 0, JNum 3] [JNum 0, JNum 5] = - 2
   \<and> getBaseComparator path_lookup value_cmp sorter_xy_desc doc_tie doc_multikey = Inr 0
   \<and> getBaseComparator path_lookup value_cmp sorter_xy doc_tie doc_multikey = Inr (- 2)"
proof -
  have parts: "sortSpecParts sorter_xy_desc \<noteq> []" by (simp add: sorter_xy_desc_def)
  note inst = minimum_key_selection [of sorter_xy_desc path_lookup value_cmp doc_tie doc_multikey
      "[[JNum 0, JNum 5], [JNum 0, JNum 3]]" "[JNum 0, JNum 3]" "[JNum 0, JNum 5]" no_coercion]
  from inst tp_value_cmp keys_tie(2) obtain m where
    m: "getMinKeyFromDoc path_lookup value_cmp sorter_xy_desc doc_tie = Inr m"
    "m \<in> set [[JNum 0, JNum 5], [JNum 0, JNum 3]]"
    "\<forall>k\<in>set [[JNum 0, JNum 5], [JNum 0, JNum 3]]. key_order value_cmp sorter_xy_desc m k \<le> 0"
    by blast
  from m(2,3) key_order_examples(4) have "m = [JNum 0, JNum 5]" by auto
  with m inst parts tp_value_cmp keys_tie(2) key_order_examples base_tie show ?thesis by simp
qed

end
